theory Spec2Isabelle
  imports Complex_Main "HOL-Library.Multiset" "HOL-Library.Char_ord"
    "HOL-Library.List_Lexorder" "HOL-Library.Product_Lexorder"
begin

unbundle bit_operations_syntax

section \<open>sam2aln: CIGAR decoding, mate merging and variant aggregation\<close>

text \<open>
  A shallow embedding of \<^verbatim>\<open>micall/core/sam2aln.py\<close>. Python 2 byte strings are
  \<open>string\<close>, Python integers are \<open>int\<close> (\<open>nat\<close> where the source cannot go
  negative: token lengths, counts, loop indices), dictionaries are association lists
  with distinct keys, and every \<^verbatim>\<open>raise\<close> is a value of type \<open>error\<close>.
\<close>

subsection \<open>Errors\<close>

text \<open>
  \<open>apply_cigar\<close> raises \<^verbatim>\<open>RuntimeError\<close> with four different messages; indexing a
  string out of range raises \<^verbatim>\<open>IndexError\<close>; dividing by \<^verbatim>\<open>float(0)\<close> raises
  \<^verbatim>\<open>ZeroDivisionError\<close>.
\<close>

datatype cigar_failure = Invalid_CIGAR_string | Unsupported_CIGAR_token | CIGAR_too_long | CIGAR_too_short

datatype error = RuntimeError cigar_failure | IndexError | ZeroDivisionError

subsection \<open>Python string primitives\<close>

text \<open>\<^verbatim>\<open>xs[start:stop]\<close> for integers (negative indices count from the end) and
  \<^verbatim>\<open>stop = None\<close>.\<close>

definition slice_index :: "nat \<Rightarrow> int \<Rightarrow> nat" where
  "slice_index n i = (if i < 0 then nat (int n + i) else min n (nat i))"

definition py_slice :: "'a list \<Rightarrow> int \<Rightarrow> int option \<Rightarrow> 'a list" where
  "py_slice xs start stop =
     (let n = length xs;
          a = slice_index n start;
          b = (case stop of None \<Rightarrow> n | Some e \<Rightarrow> slice_index n e)
      in take (b - a) (drop a xs))"

text \<open>\<^verbatim>\<open>s.strip('-')\<close>.\<close>

definition strip_gaps :: "string \<Rightarrow> string" where
  "strip_gaps s = rev (dropWhile (\<lambda>c. c = CHR ''-'') (rev (dropWhile (\<lambda>c. c = CHR ''-'') s)))"

text \<open>\<^verbatim>\<open>ord(c) - 33\<close>: the Phred quality of a quality character.\<close>

definition phred :: "char \<Rightarrow> int" where
  "phred c = int (of_char c) - 33"

subsection \<open>CIGAR tokens\<close>

text \<open>
  The source validates with \<^verbatim>\<open>re.match(r'^((\d+)([MIDNSHPX=]))*$', cigar)\<close> and
  tokenises with \<^verbatim>\<open>re.findall(r'(\d+)([MIDNSHPX=])', cigar)\<close>. \<open>cigar_scan\<close> reads
  the whole string as a run of tokens, carrying the digits of the token being read.
  In Python \<^verbatim>\<open>$\<close> also matches just before a newline that ends the string, so
  \<open>cigar_tokens\<close> accepts one trailing newline, which \<^verbatim>\<open>findall\<close> then skips.
\<close>

definition is_digit :: "char \<Rightarrow> bool" where
  "is_digit c \<longleftrightarrow> c \<in> set ''0123456789''"

definition is_operation :: "char \<Rightarrow> bool" where
  "is_operation c \<longleftrightarrow> c \<in> set ''MIDNSHPX=''"

definition digit_value :: "char \<Rightarrow> nat" where
  "digit_value c = of_char c - 48"

fun cigar_scan :: "string \<Rightarrow> nat option \<Rightarrow> (nat \<times> char) list option" where
  "cigar_scan [] None = Some []"
| "cigar_scan [] (Some n) = None"
| "cigar_scan (c # cs) digits =
     (if is_digit c then
        cigar_scan cs (Some (10 * (case digits of None \<Rightarrow> 0 | Some n \<Rightarrow> n) + digit_value c))
      else if is_operation c then
        (case digits of
           None \<Rightarrow> None
         | Some n \<Rightarrow> map_option ((#) (n, c)) (cigar_scan cs None))
      else None)"

definition cigar_tokens :: "string \<Rightarrow> (nat \<times> char) list option" where
  "cigar_tokens cigar =
     (case cigar_scan cigar None of
        Some tokens \<Rightarrow> Some tokens
      | None \<Rightarrow>
          if cigar \<noteq> [] \<and> last cigar = CHR 0x0A then cigar_scan (butlast cigar) None
          else None)"

subsection \<open>apply_cigar\<close>

type_synonym ins_dict = "(int \<times> string \<times> string) list"

text \<open>\<^verbatim>\<open>d[k] = v\<close> on a dictionary kept as an association list.\<close>

fun dict_set :: "'k \<Rightarrow> 'v \<Rightarrow> ('k \<times> 'v) list \<Rightarrow> ('k \<times> 'v) list" where
  "dict_set k v [] = [(k, v)]"
| "dict_set k v ((k', v') # kvs) =
     (if k = k' then (k, v) # kvs else (k', v') # dict_set k v kvs)"

record cigar_state =
  newseq :: string
  newqual :: string
  insertions :: ins_dict
  left :: nat

text \<open>One pass of the body of \<^verbatim>\<open>for token in tokens\<close>, before the length check.\<close>

definition cigar_token ::
  "string \<Rightarrow> string \<Rightarrow> int \<Rightarrow> int option \<Rightarrow> nat \<times> char \<Rightarrow> cigar_state \<Rightarrow> error + cigar_state" where
  "cigar_token sq ql pos clip_end token st =
     (let len = fst token; operation = snd token; l = left st in
      if operation = CHR ''M'' then
        Inr (st\<lparr>newseq := newseq st @ take len (drop l sq),
                newqual := newqual st @ take len (drop l ql),
                left := l + len\<rparr>)
      else if operation = CHR ''D'' then
        Inr (st\<lparr>newseq := newseq st @ replicate len (CHR ''-''),
                newqual := newqual st @ replicate len (CHR '' '')\<rparr>)
      else if operation = CHR ''I'' then
        Inr ((if (case clip_end of None \<Rightarrow> True | Some e \<Rightarrow> int l < e)
              then st\<lparr>insertions :=
                        dict_set (int l + pos) (take len (drop l sq), take len (drop l ql))
                          (insertions st)\<rparr>
              else st)\<lparr>left := l + len\<rparr>)
      else if operation = CHR ''S'' then
        Inr (st\<lparr>left := l + len\<rparr>)
      else Inl (RuntimeError Unsupported_CIGAR_token))"

fun cigar_loop ::
  "string \<Rightarrow> string \<Rightarrow> int \<Rightarrow> int option \<Rightarrow> (nat \<times> char) list \<Rightarrow> cigar_state \<Rightarrow> error + cigar_state" where
  "cigar_loop sq ql pos clip_end [] st = Inr st"
| "cigar_loop sq ql pos clip_end (token # tokens) st =
     (case cigar_token sq ql pos clip_end token st of
        Inl e \<Rightarrow> Inl e
      | Inr st' \<Rightarrow>
          if left st' > length sq then Inl (RuntimeError CIGAR_too_long)
          else cigar_loop sq ql pos clip_end tokens st')"

definition apply_cigar ::
  "string \<Rightarrow> string \<Rightarrow> string \<Rightarrow> int \<Rightarrow> int \<Rightarrow> int option \<Rightarrow> error + (string \<times> string \<times> ins_dict)" where
  "apply_cigar cigar sq ql pos clip_from clip_to =
     (case cigar_tokens cigar of
        None \<Rightarrow> Inl (RuntimeError Invalid_CIGAR_string)
      | Some tokens \<Rightarrow>
          (let clip_end = map_option (\<lambda>c. c + 1) clip_to;
               st0 = \<lparr>newseq = replicate (nat pos) (CHR ''-''),
                      newqual = replicate (nat pos) (CHR ''!''),
                      insertions = [], left = 0\<rparr>
           in case cigar_loop sq ql pos clip_end tokens st0 of
                Inl e \<Rightarrow> Inl e
              | Inr st \<Rightarrow>
                  if left st < length sq then Inl (RuntimeError CIGAR_too_short)
                  else Inr (py_slice (newseq st) clip_from clip_end,
                            py_slice (newqual st) clip_from clip_end,
                            insertions st)))"

subsection \<open>merge_pairs\<close>

text \<open>
  The body of \<^verbatim>\<open>for i, c2 in enumerate(seq2)\<close> at index \<open>i < length seq2\<close>:
  the character appended to \<^verbatim>\<open>mseq\<close>, or the \<^verbatim>\<open>IndexError\<close> of
  \<^verbatim>\<open>qual2[i]\<close> or \<^verbatim>\<open>qual1[i]\<close>.
\<close>

definition merge_at ::
  "string \<Rightarrow> string \<Rightarrow> string \<Rightarrow> string \<Rightarrow> int \<Rightarrow> int \<Rightarrow> nat \<Rightarrow> error + char" where
  "merge_at seq1 seq2 qual1 qual2 q_cutoff minimum_q_delta i =
     (let c2 = seq2 ! i in
      if length qual2 \<le> i then Inl IndexError
      else
        let q2 = phred (qual2 ! i) in
        if i < length seq1 then
          (let c1 = seq1 ! i in
           if length qual1 \<le> i then Inl IndexError
           else
             let q1 = phred (qual1 ! i) in
             if c1 = CHR ''-'' \<and> c2 = CHR ''-'' then Inr (CHR ''-'')
             else if c1 = c2 then
               (if q1 > q_cutoff \<or> q2 > q_cutoff then Inr c1 else Inr (CHR ''N''))
             else if \<bar>q2 - q1\<bar> \<ge> minimum_q_delta then
               (if q1 > max q2 q_cutoff then Inr c1
                else if q2 > max q1 q_cutoff then Inr c2
                else Inr (CHR ''N''))
             else Inr (CHR ''N''))
        else
          (if c2 = CHR ''-'' \<and> q2 = 0 then Inr (CHR ''n'')
           else if q2 > q_cutoff then Inr c2
           else Inr (CHR ''N'')))"

fun merge_loop :: "(nat \<Rightarrow> error + char) \<Rightarrow> nat list \<Rightarrow> string \<Rightarrow> error + string" where
  "merge_loop body [] mseq = Inr mseq"
| "merge_loop body (i # is) mseq =
     (case body i of
        Inl e \<Rightarrow> Inl e
      | Inr c \<Rightarrow> merge_loop body is (mseq @ [c]))"

text \<open>The first half of \<^verbatim>\<open>merge_pairs\<close>: the swap that makes the second read the
  longest, and the loop over its positions.\<close>

definition merge_bases ::
  "string \<Rightarrow> string \<Rightarrow> string \<Rightarrow> string \<Rightarrow> int \<Rightarrow> int \<Rightarrow> error + string" where
  "merge_bases seq1 seq2 qual1 qual2 q_cutoff minimum_q_delta =
     (if length seq1 > length seq2
      then merge_loop (merge_at seq2 seq1 qual2 qual1 q_cutoff minimum_q_delta) [0..<length seq1] []
      else merge_loop (merge_at seq1 seq2 qual1 qual2 q_cutoff minimum_q_delta) [0..<length seq2] [])"

text \<open>\<^verbatim>\<open>ins.get(pos, ('', ''))\<close>.\<close>

definition ins_get :: "ins_dict \<Rightarrow> int \<Rightarrow> string \<times> string" where
  "ins_get ins pos = (case map_of ins pos of None \<Rightarrow> ([], []) | Some v \<Rightarrow> v)"

text \<open>
  The second half: \<^verbatim>\<open>for pos in range(len(mseq)-1, -1, -1)\<close>. The source calls
  \<^verbatim>\<open>merge_pairs(ins_seq1, ins_seq2, ins_qual1, ins_qual2)\<close> here, with no insertions
  and the default cutoff 10 and delta 5; with no insertions that call is its first
  half alone (lemma \<open>merge_pairs_no_insertions\<close> below), so the model calls
  \<open>merge_bases\<close>.
\<close>

fun splice_loop :: "ins_dict \<Rightarrow> ins_dict \<Rightarrow> nat list \<Rightarrow> string \<Rightarrow> error + string" where
  "splice_loop ins1 ins2 [] mseq = Inr mseq"
| "splice_loop ins1 ins2 (pos # ps) mseq =
     (let ins_seq1 = fst (ins_get ins1 (int pos)); ins_qual1 = snd (ins_get ins1 (int pos));
          ins_seq2 = fst (ins_get ins2 (int pos)); ins_qual2 = snd (ins_get ins2 (int pos))
      in if ins_seq1 \<noteq> [] \<or> ins_seq2 \<noteq> [] then
           (case merge_bases ins_seq1 ins_seq2 ins_qual1 ins_qual2 10 5 of
              Inl e \<Rightarrow> Inl e
            | Inr ins_mseq \<Rightarrow>
                splice_loop ins1 ins2 ps (take pos mseq @ ins_mseq @ drop pos mseq))
         else splice_loop ins1 ins2 ps mseq)"

text \<open>\<^verbatim>\<open>ins = {} if ins is None else ins\<close>.\<close>

definition ins_or_empty :: "ins_dict option \<Rightarrow> ins_dict" where
  "ins_or_empty ins = (case ins of None \<Rightarrow> [] | Some d \<Rightarrow> d)"

definition merge_pairs ::
  "string \<Rightarrow> string \<Rightarrow> string \<Rightarrow> string \<Rightarrow> ins_dict option \<Rightarrow> ins_dict option \<Rightarrow> int \<Rightarrow> int
     \<Rightarrow> error + string" where
  "merge_pairs seq1 seq2 qual1 qual2 ins1 ins2 q_cutoff minimum_q_delta =
     (case merge_bases seq1 seq2 qual1 qual2 q_cutoff minimum_q_delta of
        Inl e \<Rightarrow> Inl e
      | Inr mseq \<Rightarrow>
          splice_loop (ins_or_empty ins1) (ins_or_empty ins2) (rev [0..<length mseq]) mseq)"

text \<open>\<^verbatim>\<open>len_gap_prefix\<close>: the length of the first match of \<^verbatim>\<open>^[-]+\<close>, or 0.\<close>

definition len_gap_prefix :: "string \<Rightarrow> nat" where
  "len_gap_prefix s = length (takeWhile (\<lambda>c. c = CHR ''-'') s)"

text \<open>\<^verbatim>\<open>is_first_read\<close>: \<^verbatim>\<open>(int(flag) & 0x40) != 0\<close>.\<close>

definition is_first_read :: "int \<Rightarrow> bool" where
  "is_first_read flag \<longleftrightarrow> flag AND 64 \<noteq> 0"

subsection \<open>Rows and settings\<close>

text \<open>
  One row of the remap CSV. The source reads every field as a string and converts
  \<^verbatim>\<open>flag\<close>, \<^verbatim>\<open>pos\<close> and \<^verbatim>\<open>mapq\<close> with \<^verbatim>\<open>int()\<close>; the model takes them
  as integers.
\<close>

record sam_row =
  row_qname :: string
  row_flag :: int
  row_rname :: string
  row_pos :: int
  row_mapq :: int
  row_cigar :: string
  row_seq :: string
  row_qual :: string

text \<open>
  \<^verbatim>\<open>micall.settings\<close> is imported by the source and is a parameter here. The source
  compares a float quotient with the float \<^verbatim>\<open>max_prop_N\<close>; the model compares the
  exact quotient with a rational threshold.
\<close>

record settings =
  max_prop_N :: rat
  read_mapping_cutoff :: int
  sam2aln_q_cutoffs :: "int list"

record insert_row =
  ins_qname :: string
  ins_fwd_rev :: char
  ins_refname :: string
  ins_pos :: int
  ins_insert :: string
  ins_qual :: string

text \<open>The two kinds of dictionary appended to \<^verbatim>\<open>failed_list\<close>: a rejected pair
  (qname, seq1, qual1, seq2, qual2, mapq1, mapq2) and a merge rejected at one cutoff
  (qname, qcut, seq1, qual1, seq2, qual2, prop_N, mseq).\<close>

datatype failed_row =
    Failed_pair string string string "string option" "string option" int "int option"
  | Failed_merge string int string string string string rat string

record aligned_row =
  al_refname :: string
  al_qcut :: int
  al_rank :: nat
  al_count :: nat
  al_offset :: nat
  al_seq :: string

subsection \<open>matchmaker\<close>

text \<open>
  \<open>cached\<close> is \<^verbatim>\<open>cached_rows\<close>. The unmatched reads are flushed at the end in the
  order they were cached; the source iterates a Python 2 dictionary there, in no
  particular order.
\<close>

fun matchmaker_loop ::
  "sam_row list \<Rightarrow> (string \<times> sam_row) list \<Rightarrow> (sam_row \<times> sam_row option) list" where
  "matchmaker_loop [] cached = map (\<lambda>(qname, old_row). (old_row, None)) cached"
| "matchmaker_loop (row # reader) cached =
     (case map_of cached (row_qname row) of
        None \<Rightarrow> matchmaker_loop reader (cached @ [(row_qname row, row)])
      | Some old_row \<Rightarrow>
          (old_row, Some row)
            # matchmaker_loop reader (filter (\<lambda>(qname, r). qname \<noteq> row_qname row) cached))"

definition matchmaker :: "sam_row list \<Rightarrow> (sam_row \<times> sam_row option) list" where
  "matchmaker remap_csv = matchmaker_loop remap_csv []"

subsection \<open>parse_sam\<close>

text \<open>The rows appended to \<^verbatim>\<open>insert_list\<close> for one mate.\<close>

definition insert_rows_of :: "string \<Rightarrow> string \<Rightarrow> int \<Rightarrow> int \<Rightarrow> ins_dict \<Rightarrow> insert_row list" where
  "insert_rows_of qname rname flag pos0 inserts =
     map (\<lambda>(l, iseq, iqual).
            \<lparr>ins_qname = qname,
             ins_fwd_rev = (if is_first_read flag then CHR ''F'' else CHR ''R''),
             ins_refname = rname,
             ins_pos = pos0 + l,
             ins_insert = iseq,
             ins_qual = iqual\<rparr>) inserts"

text \<open>
  \<^verbatim>\<open>for qcut in sam2aln_q_cutoffs\<close>. \<^verbatim>\<open>merge_pairs\<close> is called without insertions and
  with its default \<^verbatim>\<open>minimum_q_delta=5\<close>. The division raises when the merged
  sequence is empty once its flanking gaps are stripped.
\<close>

fun merge_cutoffs ::
  "settings \<Rightarrow> string \<Rightarrow> string \<Rightarrow> string \<Rightarrow> string \<Rightarrow> string \<Rightarrow> int list
     \<Rightarrow> (int \<times> string) list \<Rightarrow> failed_row list
     \<Rightarrow> error + ((int \<times> string) list \<times> failed_row list)" where
  "merge_cutoffs cfg qname seq1 qual1 seq2 qual2 [] mseqs failed_list = Inr (mseqs, failed_list)"
| "merge_cutoffs cfg qname seq1 qual1 seq2 qual2 (qcut # qcuts) mseqs failed_list =
     (case merge_pairs seq1 seq2 qual1 qual2 None None qcut 5 of
        Inl e \<Rightarrow> Inl e
      | Inr mseq \<Rightarrow>
          if length (strip_gaps mseq) = 0 then Inl ZeroDivisionError
          else
            let prop_N = of_nat (count_list mseq (CHR ''N'')) / of_nat (length (strip_gaps mseq))
            in if prop_N > max_prop_N cfg then
                 merge_cutoffs cfg qname seq1 qual1 seq2 qual2 qcuts mseqs
                   (failed_list @ [Failed_merge qname qcut seq1 qual1 seq2 qual2 prop_N mseq])
               else
                 merge_cutoffs cfg qname seq1 qual1 seq2 qual2 qcuts
                   (dict_set qcut mseq mseqs) failed_list)"

definition parse_sam ::
  "settings \<Rightarrow> sam_row \<times> sam_row option
     \<Rightarrow> error + (string \<times> (int \<times> string) list \<times> insert_row list \<times> failed_row list)" where
  "parse_sam cfg rows =
     (let row1 = fst rows;
          rname = row_rname row1;
          qname = row_qname row1;
          cigar1 = row_cigar row1
      in case snd rows of
           None \<Rightarrow>
             Inr (rname, [], [],
                  [Failed_pair qname (row_seq row1) (row_qual row1) None None (row_mapq row1) None])
         | Some row2 \<Rightarrow>
             if cigar1 = ''*''
                \<or> row_mapq row1 < read_mapping_cutoff cfg
                \<or> row_cigar row2 = ''*''
                \<or> row_mapq row2 < read_mapping_cutoff cfg
                \<or> row_rname row1 \<noteq> row_rname row2
             then
               Inr (rname, [], [],
                    [Failed_pair qname (row_seq row1) (row_qual row1)
                       (Some (row_seq row2)) (Some (row_qual row2))
                       (row_mapq row1) (Some (row_mapq row2))])
             else
               (let pos1 = row_pos row1 - 1 in
                case apply_cigar cigar1 (row_seq row1) (row_qual row1) 0 0 None of
                  Inl e \<Rightarrow> Inl e
                | Inr (s1, q1, inserts1) \<Rightarrow>
                    (let insert_list1 = insert_rows_of qname rname (row_flag row1) pos1 inserts1;
                         seq1 = replicate (nat pos1) (CHR ''-'') @ s1;
                         qual1 = replicate (nat pos1) (CHR ''!'') @ q1;
                         pos2 = row_pos row2 - 1
                     in case apply_cigar (row_cigar row2) (row_seq row2) (row_qual row2) 0 0 None of
                          Inl e \<Rightarrow> Inl e
                        | Inr (s2, q2, inserts2) \<Rightarrow>
                            (let insert_list2 =
                                   insert_rows_of qname rname (row_flag row2) pos2 inserts2;
                                 seq2 = replicate (nat pos2) (CHR ''-'') @ s2;
                                 qual2 = replicate (nat pos2) (CHR ''!'') @ q2
                             in case merge_cutoffs cfg qname seq1 qual1 seq2 qual2
                                       (sam2aln_q_cutoffs cfg) [] [] of
                                  Inl e \<Rightarrow> Inl e
                                | Inr (mseqs, failed_list) \<Rightarrow>
                                    Inr (rname, mseqs, insert_list1 @ insert_list2, failed_list)))))"

subsection \<open>sam2aln\<close>

text \<open>
  \<^verbatim>\<open>aligned\<close> is a \<^verbatim>\<open>defaultdict\<close> of \<^verbatim>\<open>defaultdict\<close>s of \<^verbatim>\<open>Counter\<close>s:
  reference name, then cutoff, then merged sequence. \<open>dd_update k d f\<close> is
  \<^verbatim>\<open>m[k] = f(m[k])\<close> on a dictionary whose missing entries read as \<open>d\<close>. Entries keep
  the order in which they were created; the source iterates Python 2 dictionaries,
  in no particular order.
\<close>

fun dd_update :: "'k \<Rightarrow> 'v \<Rightarrow> ('v \<Rightarrow> 'v) \<Rightarrow> ('k \<times> 'v) list \<Rightarrow> ('k \<times> 'v) list" where
  "dd_update k d f [] = [(k, f d)]"
| "dd_update k d f ((k', v) # kvs) =
     (if k = k' then (k', f v) # kvs else (k', v) # dd_update k d f kvs)"

type_synonym counter = "(string \<times> nat) list"

type_synonym aligned_dict = "(string \<times> (int \<times> counter) list) list"

text \<open>\<^verbatim>\<open>region = aligned[rname]\<close>, then \<^verbatim>\<open>region[qcut][mseq] += 1\<close> for every item of
  \<^verbatim>\<open>mseqs\<close>.\<close>

definition collect_merged :: "string \<Rightarrow> (int \<times> string) list \<Rightarrow> aligned_dict \<Rightarrow> aligned_dict" where
  "collect_merged rname mseqs aligned =
     dd_update rname []
       (\<lambda>region. fold (\<lambda>(qcut, mseq). dd_update qcut [] (dd_update mseq 0 Suc)) mseqs region)
       aligned"

record sam2aln_out =
  insert_csv :: "insert_row list"
  failed_csv :: "failed_row list"
  aligned_csv :: "aligned_row list"

type_synonym parse_result = "string \<times> (int \<times> string) list \<times> insert_row list \<times> failed_row list"

text \<open>
  \<open>parse_sam_in_threads\<close> yields the results of \<^verbatim>\<open>pool.imap(parse_sam, iterable=matchmaker(remap_csv), chunksize=100)\<close>.
  \<open>get_tasks\<close> is \<^verbatim>\<open>Pool._get_tasks\<close>: the pairs in batches of \<open>chunksize\<close>. A worker
  runs \<open>mapstar\<close>, that is \<^verbatim>\<open>map(parse_sam, chunk)\<close>, on a whole batch: the first
  exception ends the batch and is all that comes back for it. \<^verbatim>\<open>imap\<close> delivers the
  batches in order, the results of a batch one by one, and raises the exception of a
  batch in place of its results. An iterator is modelled by the list of what it
  delivers, \<open>Inr\<close> of a result or \<open>Inl\<close> of the exception it raises; nothing after
  an exception is read.
\<close>

function get_tasks :: "nat \<Rightarrow> 'a list \<Rightarrow> 'a list list" where
  "get_tasks chunksize it =
     (if chunksize = 0 \<or> it = [] then []
      else take chunksize it # get_tasks chunksize (drop chunksize it))"
  by pat_completeness auto
termination
  by (relation "measure (\<lambda>(chunksize, it). length it)") auto

declare get_tasks.simps [simp del]

fun mapstar :: "('a \<Rightarrow> error + 'b) \<Rightarrow> 'a list \<Rightarrow> error + 'b list" where
  "mapstar func [] = Inr []"
| "mapstar func (x # chunk) =
     (case func x of
        Inl e \<Rightarrow> Inl e
      | Inr y \<Rightarrow> (case mapstar func chunk of Inl e \<Rightarrow> Inl e | Inr ys \<Rightarrow> Inr (y # ys)))"

definition imap_chunks :: "('a \<Rightarrow> error + 'b) \<Rightarrow> 'a list list \<Rightarrow> (error + 'b) list" where
  "imap_chunks func task_batches =
     concat (map (\<lambda>chunk. case mapstar func chunk of
                            Inl e \<Rightarrow> [Inl e]
                          | Inr results \<Rightarrow> map Inr results) task_batches)"

definition parse_sam_in_threads ::
  "settings \<Rightarrow> (sam_row \<times> sam_row option) list \<Rightarrow> (error + parse_result) list" where
  "parse_sam_in_threads cfg iterable = imap_chunks (parse_sam cfg) (get_tasks 100 iterable)"

text \<open>
  \<^verbatim>\<open>for rname, mseqs, insert_list, failed_list in iter\<close>. An exception that the
  iterator raises is not caught: the result is then \<open>Inl\<close> of the error and of the
  rows written so far.
\<close>

fun sam2aln_loop ::
  "(error + parse_result) list \<Rightarrow> aligned_dict \<Rightarrow> insert_row list \<Rightarrow> failed_row list
     \<Rightarrow> (error \<times> sam2aln_out) + (aligned_dict \<times> insert_row list \<times> failed_row list)" where
  "sam2aln_loop [] aligned inserts failed = Inr (aligned, inserts, failed)"
| "sam2aln_loop (item # iter) aligned inserts failed =
     (case item of
        Inl e \<Rightarrow> Inl (e, \<lparr>insert_csv = inserts, failed_csv = failed, aligned_csv = []\<rparr>)
      | Inr (rname, mseqs, insert_list, failed_list) \<Rightarrow>
          sam2aln_loop iter (collect_merged rname mseqs aligned)
            (inserts @ insert_list) (failed @ failed_list))"

text \<open>
  The rows of one (reference, cutoff) group: \<^verbatim>\<open>intermed\<close> sorted with
  \<^verbatim>\<open>reverse=True\<close>, then enumerated. Tuples compare lexicographically and byte strings
  bytewise, as the orders of \<open>Product_Lexorder\<close>, \<open>List_Lexorder\<close> and \<open>Char_ord\<close> do.
\<close>

definition variant_rows :: "string \<Rightarrow> int \<Rightarrow> counter \<Rightarrow> aligned_row list" where
  "variant_rows rname qcut data2 =
     (let intermed = rev (sort (map (\<lambda>(s, count). (count, len_gap_prefix s, s)) data2))
      in map (\<lambda>(rank, count, offset, sq).
                \<lparr>al_refname = rname, al_qcut = qcut, al_rank = rank, al_count = count,
                 al_offset = offset, al_seq = strip_gaps sq\<rparr>)
             (enumerate 0 intermed))"

definition write_aligned :: "aligned_dict \<Rightarrow> aligned_row list" where
  "write_aligned aligned =
     concat (map (\<lambda>(rname, data).
               concat (map (\<lambda>(qcut, data2). variant_rows rname qcut data2) data)) aligned)"

text \<open>
  \<open>sam2aln\<close>. \<open>nthreads\<close> is the option \<^verbatim>\<open>-p\<close>, a natural number here (\<^verbatim>\<open>Pool\<close> refuses
  a negative number of processes); \<^verbatim>\<open>if nthreads:\<close> is false for \<^verbatim>\<open>None\<close> and for 0,
  and the iterator is then \<^verbatim>\<open>itertools.imap(parse_sam, matchmaker(remap_csv))\<close>. The
  aligned rows are written after the loop.
\<close>

definition sam2aln ::
  "settings \<Rightarrow> sam_row list \<Rightarrow> nat option \<Rightarrow> (error \<times> sam2aln_out) + sam2aln_out" where
  "sam2aln cfg remap_csv nthreads =
     (let iter =
            (if (case nthreads of None \<Rightarrow> False | Some n \<Rightarrow> n \<noteq> 0)
             then parse_sam_in_threads cfg (matchmaker remap_csv)
             else map (parse_sam cfg) (matchmaker remap_csv))
      in case sam2aln_loop iter [] [] [] of
           Inl failure \<Rightarrow> Inl failure
         | Inr (aligned, inserts, failed) \<Rightarrow>
             Inr \<lparr>insert_csv = inserts, failed_csv = failed,
                  aligned_csv = write_aligned aligned\<rparr>)"

subsection \<open>Notions used to state the properties of the aggregation\<close>

text \<open>The merged sequences that \<open>parse_sam\<close> returns for one (reference, cutoff)
  group, in the order of the stream.\<close>

definition merged_in_group ::
  "settings \<Rightarrow> (sam_row \<times> sam_row option) list \<Rightarrow> string \<Rightarrow> int \<Rightarrow> string list" where
  "merged_in_group cfg iter rname qcut =
     concat (map (\<lambda>rows.
                case parse_sam cfg rows of
                  Inl e \<Rightarrow> []
                | Inr (r, mseqs, insert_list, failed_list) \<Rightarrow>
                    if r = rname then map snd (filter (\<lambda>(qc, mseq). qc = qcut) mseqs) else [])
             iter)"

text \<open>The rows of one (reference, cutoff) group in the aligned output.\<close>

definition group_rows :: "string \<Rightarrow> int \<Rightarrow> aligned_row list \<Rightarrow> aligned_row list" where
  "group_rows rname qcut rows = filter (\<lambda>r. al_refname r = rname \<and> al_qcut r = qcut) rows"

text \<open>The sort key of a merged sequence \<open>s\<close> among the merges \<open>merged\<close> of its group:
  its count, the length of its leading gap run, and the sequence itself.\<close>

definition variant_key :: "string list \<Rightarrow> string \<Rightarrow> nat \<times> nat \<times> string" where
  "variant_key merged s = (count_list merged s, len_gap_prefix s, s)"

text \<open>The distinct merged sequences of a group by descending key.\<close>

definition variant_order :: "string list \<Rightarrow> string list" where
  "variant_order merged = map (\<lambda>k. snd (snd k)) (rev (sort (map (variant_key merged) (remdups merged))))"

text \<open>One output row for each sequence of \<open>ks\<close>, ranked by its position in \<open>ks\<close>.\<close>

definition ranked_rows :: "string \<Rightarrow> int \<Rightarrow> string list \<Rightarrow> string list \<Rightarrow> aligned_row list" where
  "ranked_rows rname qcut merged ks =
     map (\<lambda>(rank, s).
            \<lparr>al_refname = rname, al_qcut = qcut, al_rank = rank,
             al_count = count_list merged s, al_offset = len_gap_prefix s,
             al_seq = strip_gaps s\<rparr>)
         (enumerate 0 ks)"

text \<open>Reading the dictionaries: \<^verbatim>\<open>aligned[r][q]\<close> and \<^verbatim>\<open>counter[s]\<close>, where a missing
  entry reads as empty or zero.\<close>

definition region_counter :: "(int \<times> counter) list \<Rightarrow> int \<Rightarrow> counter" where
  "region_counter region q = (case map_of region q of None \<Rightarrow> [] | Some c \<Rightarrow> c)"

definition counter_of :: "aligned_dict \<Rightarrow> string \<Rightarrow> int \<Rightarrow> counter" where
  "counter_of aligned r q =
     region_counter (case map_of aligned r of None \<Rightarrow> [] | Some region \<Rightarrow> region) q"

definition count_of :: "counter \<Rightarrow> string \<Rightarrow> nat" where
  "count_of c s = (case map_of c s of None \<Rightarrow> 0 | Some n \<Rightarrow> n)"

text \<open>Keys are distinct at every level and every stored count is positive.\<close>

definition counter_ok :: "counter \<Rightarrow> bool" where
  "counter_ok c \<longleftrightarrow> distinct (map fst c) \<and> (\<forall>n\<in>snd ` set c. 0 < n)"

definition region_ok :: "(int \<times> counter) list \<Rightarrow> bool" where
  "region_ok region \<longleftrightarrow> distinct (map fst region) \<and> (\<forall>c\<in>snd ` set region. counter_ok c)"

definition aligned_ok :: "aligned_dict \<Rightarrow> bool" where
  "aligned_ok aligned \<longleftrightarrow> distinct (map fst aligned) \<and> (\<forall>region\<in>snd ` set aligned. region_ok region)"

text \<open>A pair that \<open>parse_sam\<close> does not reject before decoding: both mates are present
  and mapped, with sufficient mapping quality, on the same reference.\<close>

definition accepted :: "settings \<Rightarrow> sam_row \<Rightarrow> sam_row \<Rightarrow> bool" where
  "accepted cfg row1 row2 \<longleftrightarrow>
     row_cigar row1 \<noteq> ''*'' \<and> read_mapping_cutoff cfg \<le> row_mapq row1 \<and>
     row_cigar row2 \<noteq> ''*'' \<and> read_mapping_cutoff cfg \<le> row_mapq row2 \<and>
     row_rname row1 = row_rname row2"

text \<open>The insertion rows and the failure rows that \<open>parse_sam\<close> returns for the pairs
  of \<open>iter\<close>, in order.\<close>

definition inserts_of :: "settings \<Rightarrow> (sam_row \<times> sam_row option) list \<Rightarrow> insert_row list" where
  "inserts_of cfg iter =
     concat (map (\<lambda>rows. case parse_sam cfg rows of
                            Inl e \<Rightarrow> []
                          | Inr (r, mseqs, insert_list, failed_list) \<Rightarrow> insert_list) iter)"

definition failures_of :: "settings \<Rightarrow> (sam_row \<times> sam_row option) list \<Rightarrow> failed_row list" where
  "failures_of cfg iter =
     concat (map (\<lambda>rows. case parse_sam cfg rows of
                            Inl e \<Rightarrow> []
                          | Inr (r, mseqs, insert_list, failed_list) \<Rightarrow> failed_list) iter)"

text \<open>Of the pairs \<open>before\<close> a pair whose \<open>parse_sam\<close> raises, those whose results reach
  the loop of \<open>sam2aln\<close>: all of them for the sequential iterator; with a pool, those
  of the batches of 100 that come before the batch of the failing pair.\<close>

definition delivered_before ::
  "nat option \<Rightarrow> (sam_row \<times> sam_row option) list \<Rightarrow> (sam_row \<times> sam_row option) list" where
  "delivered_before nthreads before =
     (if (case nthreads of None \<Rightarrow> False | Some n \<Rightarrow> n \<noteq> 0)
      then take (100 * (length before div 100)) before
      else before)"

subsection \<open>Example inputs\<close>

text \<open>Settings and rows on which the theorems below are instantiated: a maximal
  proportion of \<open>N\<close> of one half, a mapping quality cutoff of 10 and the quality
  cutoff 15; a row on reference \<open>R1\<close> with mapping quality 44.\<close>

definition example_settings :: settings where
  "example_settings = \<lparr>max_prop_N = 1 / 2, read_mapping_cutoff = 10, sam2aln_q_cutoffs = [15]\<rparr>"

definition example_row :: "string \<Rightarrow> int \<Rightarrow> int \<Rightarrow> string \<Rightarrow> string \<Rightarrow> string \<Rightarrow> sam_row" where
  "example_row name flag pos cigar sq ql =
     \<lparr>row_qname = name, row_flag = flag, row_rname = ''R1'', row_pos = pos, row_mapq = 44,
      row_cigar = cigar, row_seq = sq, row_qual = ql\<rparr>"

text \<open>The two mates of one fragment, reading the same bases at the same position.\<close>

definition example_pair :: "string \<Rightarrow> int \<Rightarrow> string \<Rightarrow> string \<Rightarrow> string \<Rightarrow> sam_row list" where
  "example_pair name pos cigar sq ql =
     [example_row name 99 pos cigar sq ql, example_row name 147 pos cigar sq ql]"

text \<open>Three fragments: \<open>a\<close> and \<open>c\<close> merge to \<open>ACGT\<close>, \<open>b\<close> starts one position
  later and merges to \<open>-ACGT\<close>.\<close>

definition example_stream :: "sam_row list" where
  "example_stream =
     example_pair ''a'' 1 ''4M'' ''ACGT'' ''IIII'' @
     example_pair ''b'' 2 ''4M'' ''ACGT'' ''IIII'' @
     example_pair ''c'' 1 ''4M'' ''ACGT'' ''IIII''"

definition example_out :: sam2aln_out where
  "example_out =
     \<lparr>insert_csv = [], failed_csv = [],
      aligned_csv =
        [\<lparr>al_refname = ''R1'', al_qcut = 15, al_rank = 0, al_count = 2, al_offset = 0,
          al_seq = ''ACGT''\<rparr>,
         \<lparr>al_refname = ''R1'', al_qcut = 15, al_rank = 1, al_count = 1, al_offset = 1,
          al_seq = ''ACGT''\<rparr>]\<rparr>"

text \<open>Three fragments, the second with a CIGAR string that ends in a digit.\<close>

definition example_bad_stream :: "sam_row list" where
  "example_bad_stream =
     example_pair ''a'' 1 ''2M1I1M'' ''ACGT'' ''IIII'' @
     example_pair ''b'' 1 ''4M4'' ''ACGT'' ''IIII'' @
     example_pair ''c'' 1 ''4M'' ''ACGT'' ''IIII''"

subsection \<open>Notions used to state the properties of the decoder and of the cutoff loop\<close>

text \<open>The number of characters of the read that a list of tokens consumes: the
  lengths of its \<open>M\<close>, \<open>I\<close> and \<open>S\<close> tokens.\<close>

definition consumed :: "(nat \<times> char) list \<Rightarrow> nat" where
  "consumed tokens =
     sum_list (map fst (filter (\<lambda>t. snd t \<in> {CHR ''M'', CHR ''I'', CHR ''S''}) tokens))"

text \<open>\<^verbatim>\<open>mseq.count('N') / float(len(mseq.strip('-')))\<close>, where the length is not zero.\<close>

definition prop_N_of :: "string \<Rightarrow> rat" where
  "prop_N_of mseq = of_nat (count_list mseq (CHR ''N'')) / of_nat (length (strip_gaps mseq))"

section \<open>Properties of the CIGAR decoder\<close>

lemma cigar_token_lengths:
  assumes "cigar_token sq ql pos ce t st = Inr st'" "left st' \<le> length sq" "length sq \<le> length ql"
    "length (newseq st) = length (newqual st)"
  shows "length (newseq st') = length (newqual st')"
  using assms by (auto simp: cigar_token_def Let_def split: if_splits option.splits)

lemma cigar_loop_lengths:
  "cigar_loop sq ql pos ce ts st = Inr st' \<Longrightarrow> length sq \<le> length ql \<Longrightarrow>
    length (newseq st) = length (newqual st) \<Longrightarrow> length (newseq st') = length (newqual st')"
proof (induction ts arbitrary: st)
  case Nil
  then show ?case by simp
next
  case (Cons t ts)
  from Cons.prems(1) obtain st1 where t: "cigar_token sq ql pos ce t st = Inr st1"
    and le: "left st1 \<le> length sq" and rest: "cigar_loop sq ql pos ce ts st1 = Inr st'"
    by (auto split: sum.splits if_splits)
  from cigar_token_lengths [OF t le Cons.prems(2) Cons.prems(3)]
  show ?case using Cons.IH [OF rest Cons.prems(2)] by simp
qed

lemma py_slice_length:
  "length xs = length ys \<Longrightarrow> length (py_slice xs a b) = length (py_slice ys a b)"
  by (simp add: py_slice_def Let_def)

text \<open>
  C10 (as stated): whenever \<open>apply_cigar\<close> returns, the clipped sequence and the clipped
  quality string have equal length, for every quality string. This fails when the
  quality string is shorter than the base string: the \<open>M\<close> slices of \<^verbatim>\<open>qual\<close> come out
  short and nothing checks \<^verbatim>\<open>len(qual)\<close>.
\<close>

theorem apply_cigar_lengths_counterexample:
  "apply_cigar ''2M'' ''AC'' ''I'' 0 0 None = Inr (''AC'', ''I'', [])
   \<and> length ''AC'' \<noteq> length ''I''"
  by code_simp

text \<open>
  C10 (amended): whenever \<open>apply_cigar\<close> returns and the quality string is at least as
  long as the base string (one quality code for each base), the returned clipped
  sequence and clipped quality string have equal length, for every CIGAR, start
  position and clip window.
\<close>

theorem apply_cigar_lengths:
  assumes "apply_cigar cigar sq ql pos clip_from clip_to = Inr (s, q, ins)"
    and "length sq \<le> length ql"
  shows "length s = length q"
proof -
  from assms(1) obtain tokens st where
    loop: "cigar_loop sq ql pos (map_option (\<lambda>c. c + 1) clip_to) tokens
       \<lparr>newseq = replicate (nat pos) (CHR ''-''), newqual = replicate (nat pos) (CHR ''!''),
        insertions = [], left = 0\<rparr> = Inr st"
    and s: "s = py_slice (newseq st) clip_from (map_option (\<lambda>c. c + 1) clip_to)"
    and q: "q = py_slice (newqual st) clip_from (map_option (\<lambda>c. c + 1) clip_to)"
    by (auto simp: apply_cigar_def Let_def split: option.splits sum.splits if_splits)
  have "length (newseq st) = length (newqual st)"
    using cigar_loop_lengths [OF loop assms(2)] by simp
  then show ?thesis unfolding s q by (rule py_slice_length)
qed

theorem apply_cigar_lengths_witness:
  "apply_cigar ''2M2D1M'' ''AAA'' ''IIII'' 2 1 (Some 5) = Inr (''-AA--'', ''!II  '', [])
   \<and> length ''-AA--'' = length ''!II  ''"
proof -
  have r: "apply_cigar ''2M2D1M'' ''AAA'' ''IIII'' 2 1 (Some 5) = Inr (''-AA--'', ''!II  '', [])"
    by code_simp
  have "length ''AAA'' \<le> length ''IIII''" by simp
  from apply_cigar_lengths [OF r this] r show ?thesis by simp
qed

text \<open>
  C3: the bases of an \<open>I\<close> token are recorded in the insertion dictionary exactly when
  the position of the insertion falls inside the clip window. The source tests only
  \<^verbatim>\<open>left < end\<close>, the offset in the read against the end of the window: there is no
  test against \<^verbatim>\<open>clip_from\<close>, and \<^verbatim>\<open>pos\<close> is not added. With the window [10, 20] an
  insertion at position 2 is recorded although nothing of the read is inside the
  window; with the window [0, 3] and a read starting at 5 an insertion at position 6
  is recorded.
\<close>

theorem apply_cigar_insertion_outside_window:
  "apply_cigar ''2M1I2M'' ''ACGTA'' ''IIIII'' 0 10 (Some 20) = Inr ('''', '''', [(2, ''G'', ''I'')])
   \<and> apply_cigar ''1M1I1M'' ''ACG'' ''III'' 5 0 (Some 3) = Inr (''----'', ''!!!!'', [(6, ''C'', ''I'')])"
  by code_simp

lemma cigar_token_left:
  "cigar_token sq ql pos ce t st = Inr st' \<Longrightarrow> left st' = left st + consumed [t]"
  by (auto simp: cigar_token_def consumed_def Let_def split: if_splits)

lemma consumed_Cons: "consumed (t # ts) = consumed [t] + consumed ts"
  by (simp add: consumed_def)

lemma cigar_loop_left:
  "cigar_loop sq ql pos ce ts st = Inr st' \<Longrightarrow> left st' = left st + consumed ts"
proof (induction ts arbitrary: st)
  case Nil
  then show ?case by (simp add: consumed_def)
next
  case (Cons t ts)
  from Cons.prems obtain st1 where t: "cigar_token sq ql pos ce t st = Inr st1"
    and rest: "cigar_loop sq ql pos ce ts st1 = Inr st'"
    by (auto split: sum.splits if_splits)
  from Cons.IH [OF rest] cigar_token_left [OF t] show ?case
    by (simp add: consumed_Cons [of t ts])
qed

lemma consumed_take: "consumed (take k ts) \<le> consumed ts"
proof (induction ts arbitrary: k)
  case Nil
  show ?case by simp
next
  case (Cons t ts)
  show ?case
  proof (cases k)
    case 0
    then show ?thesis by (simp add: consumed_def)
  next
    case (Suc j)
    with Cons [of j] show ?thesis
      by (simp add: consumed_Cons [of t ts] consumed_Cons [of t "take j ts"])
  qed
qed

text \<open>When \<open>apply_cigar\<close> returns, the CIGAR string is a run of tokens (up to one
  trailing newline) that consumes exactly the read; so it raises when a prefix of the
  tokens consumes more than the read, and when all of them consume less.\<close>

lemma apply_cigar_consumes_read:
  assumes "apply_cigar cigar sq ql pos clip_from clip_to = Inr r"
  shows "\<exists>tokens. cigar_tokens cigar = Some tokens \<and> consumed tokens = length sq
           \<and> (\<forall>k. consumed (take k tokens) \<le> length sq)"
proof -
  from assms obtain tokens st where tk: "cigar_tokens cigar = Some tokens"
    and loop: "cigar_loop sq ql pos (map_option (\<lambda>c. c + 1) clip_to) tokens
       \<lparr>newseq = replicate (nat pos) (CHR ''-''), newqual = replicate (nat pos) (CHR ''!''),
        insertions = [], left = 0\<rparr> = Inr st"
    and ge: "\<not> left st < length sq"
    by (auto simp: apply_cigar_def Let_def split: option.splits sum.splits if_splits)
  from cigar_loop_left [OF loop] have l: "left st = consumed tokens" by simp
  have le: "left st \<le> length sq"
  proof (cases tokens rule: rev_cases)
    case Nil
    with l show ?thesis by (simp add: consumed_def)
  next
    case (snoc ts t)
    have "cigar_loop sq ql pos ce (xs @ [x]) s0 = Inr s1 \<Longrightarrow> left s1 \<le> length sq"
      for xs x s0 s1 ce
      by (induction xs arbitrary: s0) (auto split: sum.splits if_splits)
    from this [OF loop [unfolded snoc]] show ?thesis .
  qed
  with ge l have eq: "consumed tokens = length sq" by simp
  with consumed_take [of _ tokens] tk show ?thesis by auto
qed

text \<open>
  C6: \<open>apply_cigar\<close> fails whenever the CIGAR string violates the token grammar. The
  source anchors its pattern with \<^verbatim>\<open>$\<close>, which in Python also matches before a newline
  that ends the string: the string \<open>3M\<close> followed by a newline is not a run of tokens,
  and is decoded like \<open>3M\<close>.
\<close>

theorem apply_cigar_trailing_newline:
  "apply_cigar [CHR ''3'', CHR ''M'', CHR 0x0A] ''AAA'' ''III'' 0 0 None = Inr (''AAA'', ''III'', [])"
  by code_simp

section \<open>Errors are not caught\<close>

lemma cigar_loop_error:
  "cigar_loop sq ql pos ce ts st = Inl e \<Longrightarrow> \<exists>f. e = RuntimeError f"
proof (induction ts arbitrary: st)
  case Nil
  then show ?case by simp
next
  case (Cons t ts)
  then show ?case
    by (auto simp: cigar_token_def Let_def split: sum.splits if_splits)
qed

lemma apply_cigar_error:
  "apply_cigar cigar sq ql pos clip_from clip_to = Inl e \<Longrightarrow> \<exists>f. e = RuntimeError f"
  by (auto simp: apply_cigar_def Let_def split: option.splits sum.splits if_splits
      dest: cigar_loop_error)

lemma parse_sam_decoding_failure:
  assumes "accepted cfg row1 row2"
    and "bad = row1 \<or> bad = row2"
    and "apply_cigar (row_cigar bad) (row_seq bad) (row_qual bad) 0 0 None = Inl e"
  shows "\<exists>f. parse_sam cfg (row1, Some row2) = Inl (RuntimeError f)"
proof (cases "apply_cigar (row_cigar row1) (row_seq row1) (row_qual row1) 0 0 None")
  case (Inl e1)
  from apply_cigar_error [OF Inl] obtain f where "e1 = RuntimeError f" by blast
  with Inl assms(1) have "parse_sam cfg (row1, Some row2) = Inl (RuntimeError f)"
    by (simp add: parse_sam_def accepted_def Let_def)
  then show ?thesis by blast
next
  case (Inr r1)
  with assms(2,3) have 2: "apply_cigar (row_cigar row2) (row_seq row2) (row_qual row2) 0 0 None = Inl e"
    by auto
  from apply_cigar_error [OF 2] obtain f where "e = RuntimeError f" by blast
  with Inr 2 assms(1) have "parse_sam cfg (row1, Some row2) = Inl (RuntimeError f)"
    by (simp add: parse_sam_def accepted_def Let_def split: prod.splits)
  then show ?thesis by blast
qed

lemma sam2aln_loop_abort:
  "\<forall>p\<in>set good. \<exists>r. parse_sam cfg p = Inr r \<Longrightarrow>
   sam2aln_loop (map (parse_sam cfg) good @ Inl e # rest) aligned inserts failed
     = Inl (e, \<lparr>insert_csv = inserts @ inserts_of cfg good,
                failed_csv = failed @ failures_of cfg good, aligned_csv = []\<rparr>)"
proof (induction good arbitrary: aligned inserts failed)
  case Nil
  then show ?case by (simp add: inserts_of_def failures_of_def)
next
  case (Cons p good)
  from Cons.prems obtain rname mseqs il fl where p: "parse_sam cfg p = Inr (rname, mseqs, il, fl)"
    by (metis list.set_intros(1) prod_cases4)
  from Cons.prems have rest: "\<forall>p\<in>set good. \<exists>r. parse_sam cfg p = Inr r" by simp
  show ?case
    using Cons.IH [OF rest] p
    by (simp add: inserts_of_def failures_of_def)
qed


lemma mapstar_Inr: "mapstar f xs = Inr ys \<Longrightarrow> map f xs = map Inr ys"
  by (induction xs arbitrary: ys) (auto split: sum.splits)

lemma mapstar_all_Inr: "\<forall>x\<in>set xs. \<exists>r. f x = Inr r \<Longrightarrow> \<exists>ys. mapstar f xs = Inr ys"
  by (induction xs) (auto split: sum.splits)

lemma mapstar_first_error:
  "\<forall>p\<in>set pre. \<exists>r. f p = Inr r \<Longrightarrow> f x = Inl e \<Longrightarrow> mapstar f (pre @ x # post) = Inl e"
  by (induction pre) (auto split: sum.splits)

lemma imap_chunks_Cons:
  "imap_chunks f (c # cs)
     = (case mapstar f c of Inl e \<Rightarrow> [Inl e] | Inr results \<Rightarrow> map Inr results) @ imap_chunks f cs"
  by (simp add: imap_chunks_def)

lemma imap_chunks_Nil: "imap_chunks f [] = []"
  by (simp add: imap_chunks_def)

lemma get_tasks_Cons:
  "0 < n \<Longrightarrow> xs \<noteq> [] \<Longrightarrow> get_tasks n xs = take n xs # get_tasks n (drop n xs)"
  by (subst get_tasks.simps) simp

lemma concat_get_tasks: "0 < n \<Longrightarrow> concat (get_tasks n xs) = xs"
proof (induction n xs rule: get_tasks.induct)
  case (1 n xs)
  show ?case
  proof (cases "xs = []")
    case True
    then show ?thesis by (subst get_tasks.simps) simp
  next
    case False
    with 1 show ?thesis by (simp add: get_tasks_Cons)
  qed
qed

text \<open>A pool that raises nothing has delivered what the sequential iterator delivers.\<close>

lemma imap_chunks_no_error:
  "\<forall>e. Inl e \<notin> set (imap_chunks f cs) \<Longrightarrow> imap_chunks f cs = map f (concat cs)"
proof (induction cs)
  case Nil
  show ?case by (simp add: imap_chunks_Nil)
next
  case (Cons c cs)
  show ?case
  proof (cases "mapstar f c")
    case (Inl e)
    from Cons.prems have "Inl e \<notin> set (imap_chunks f (c # cs))" by blast
    with Inl show ?thesis by (simp add: imap_chunks_Cons)
  next
    case (Inr results)
    with Cons.prems have "\<forall>e. Inl e \<notin> set (imap_chunks f cs)"
      by (simp add: imap_chunks_Cons)
    from Cons.IH [OF this] Inr mapstar_Inr [OF Inr] show ?thesis
      by (simp add: imap_chunks_Cons)
  qed
qed

lemma sam2aln_loop_no_error:
  "sam2aln_loop iter aligned inserts failed = Inr x \<Longrightarrow> Inl e \<notin> set iter"
  by (induction iter arbitrary: aligned inserts failed) (auto split: sum.splits)


text \<open>The pool raises the first error of the stream after the results of the batches
  that come before the batch of the failing pair.\<close>

lemma imap_chunks_abort:
  assumes "0 < n" and "f x = Inl e"
  shows "\<forall>p\<in>set before. \<exists>r. f p = Inr r \<Longrightarrow>
     \<exists>tail. imap_chunks f (get_tasks n (before @ x # rest))
       = map f (take (n * (length before div n)) before) @ Inl e # tail"
proof (induction "length before" arbitrary: before rule: less_induct)
  case less
  have ne: "before @ x # rest \<noteq> []" by simp
  show ?case
  proof (cases "length before < n")
    case True
    then have "take n (before @ x # rest) = before @ x # take (n - length before - 1) rest"
      by (simp add: take_Cons')
    with mapstar_first_error [OF less.prems assms(2)]
    have "mapstar f (take n (before @ x # rest)) = Inl e" by simp
    with True show ?thesis
      by (simp add: get_tasks_Cons [OF assms(1) ne] imap_chunks_Cons)
  next
    case False
    then have ge: "n \<le> length before" by simp
    let ?b' = "drop n before"
    have good': "\<forall>p\<in>set ?b'. \<exists>r. f p = Inr r"
      using less.prems by (meson in_set_dropD)
    have "length ?b' < length before" using ge assms(1) by simp
    from less.hyps [OF this good'] obtain tail where
      tl: "imap_chunks f (get_tasks n (?b' @ x # rest))
         = map f (take (n * (length ?b' div n)) ?b') @ Inl e # tail" by blast
    have first: "take n (before @ x # rest) = take n before"
      and later: "drop n (before @ x # rest) = ?b' @ x # rest"
      using ge by simp_all
    have "\<forall>p\<in>set (take n before). \<exists>r. f p = Inr r"
      using less.prems by (meson in_set_takeD)
    from mapstar_all_Inr [OF this] obtain results where
      ms: "mapstar f (take n before) = Inr results" by blast
    have d: "length before div n = Suc ((length before - n) div n)"
      using assms(1) ge by (rule le_div_geq)
    have "map f (take (n * (length before div n)) before)
        = map f (take n before) @ map f (take (n * (length ?b' div n)) ?b')"
      unfolding d by (simp add: take_add)
    moreover have "get_tasks n (before @ x # rest) = take n before # get_tasks n (?b' @ x # rest)"
      unfolding get_tasks_Cons [OF assms(1) ne] first later ..
    then have "imap_chunks f (get_tasks n (before @ x # rest))
        = map f (take n before) @ imap_chunks f (get_tasks n (?b' @ x # rest))"
      using ms mapstar_Inr [OF ms] by (simp add: imap_chunks_Cons)
    ultimately show ?thesis using tl by simp
  qed
qed
lemma sam2aln_returns:
  assumes "sam2aln cfg remap_csv nthreads = Inr out"
  shows "\<exists>aligned inserts failed.
           sam2aln_loop (map (parse_sam cfg) (matchmaker remap_csv)) [] [] []
             = Inr (aligned, inserts, failed)
           \<and> out = \<lparr>insert_csv = inserts, failed_csv = failed,
                      aligned_csv = write_aligned aligned\<rparr>"
proof (cases "case nthreads of None \<Rightarrow> False | Some n \<Rightarrow> n \<noteq> 0")
  case False
  with assms show ?thesis
    by (auto simp: sam2aln_def Let_def split: sum.splits)
next
  case True
  with assms obtain aligned inserts failed where
    loop: "sam2aln_loop (parse_sam_in_threads cfg (matchmaker remap_csv)) [] [] []
             = Inr (aligned, inserts, failed)"
    and out: "out = \<lparr>insert_csv = inserts, failed_csv = failed,
                      aligned_csv = write_aligned aligned\<rparr>"
    by (auto simp: sam2aln_def Let_def split: sum.splits)
  from sam2aln_loop_no_error [OF loop]
  have "\<forall>e. Inl e \<notin> set (imap_chunks (parse_sam cfg) (get_tasks 100 (matchmaker remap_csv)))"
    by (simp add: parse_sam_in_threads_def)
  from imap_chunks_no_error [OF this]
  have "parse_sam_in_threads cfg (matchmaker remap_csv) = map (parse_sam cfg) (matchmaker remap_csv)"
    by (simp add: parse_sam_in_threads_def concat_get_tasks)
  with loop out show ?thesis by simp
qed


lemma sam2aln_abort:
  assumes "matchmaker remap_csv = before @ rows # rest"
    and "parse_sam cfg rows = Inl e" and "\<forall>p\<in>set before. \<exists>r. parse_sam cfg p = Inr r"
  shows "sam2aln cfg remap_csv nthreads
     = Inl (e, \<lparr>insert_csv = inserts_of cfg (delivered_before nthreads before),
                failed_csv = failures_of cfg (delivered_before nthreads before),
                aligned_csv = []\<rparr>)"
proof (cases "case nthreads of None \<Rightarrow> False | Some n \<Rightarrow> n \<noteq> 0")
  case False
  with sam2aln_loop_abort [OF assms(3), of e "map (parse_sam cfg) rest" "[]" "[]" "[]"]
  show ?thesis
    by (simp add: sam2aln_def Let_def assms(1,2) delivered_before_def)
next
  case True
  let ?good = "take (100 * (length before div 100)) before"
  from imap_chunks_abort [OF _ assms(2,3), of 100 rest] obtain tail where
    it: "parse_sam_in_threads cfg (matchmaker remap_csv)
         = map (parse_sam cfg) ?good @ Inl e # tail"
    by (auto simp: parse_sam_in_threads_def assms(1))
  have "\<forall>p\<in>set ?good. \<exists>r. parse_sam cfg p = Inr r"
    using assms(3) by (meson in_set_takeD)
  from sam2aln_loop_abort [OF this, of e tail "[]" "[]" "[]"] True show ?thesis
    by (simp add: sam2aln_def Let_def it delivered_before_def)
qed

section \<open>Properties of the pair merger\<close>

lemma merge_at_sym:
  assumes "length seq1 = length seq2" "i < length seq2"
  shows "merge_at seq1 seq2 qual1 qual2 c d i = merge_at seq2 seq1 qual2 qual1 c d i"
  using assms by (auto simp: merge_at_def Let_def)

lemma merge_loop_cong:
  "(\<And>i. i \<in> set is \<Longrightarrow> f i = g i) \<Longrightarrow> merge_loop f is acc = merge_loop g is acc"
  by (induction "is" arbitrary: acc) (auto split: sum.splits)

lemma merge_bases_sym:
  "merge_bases seq1 seq2 qual1 qual2 c d = merge_bases seq2 seq1 qual2 qual1 c d"
proof (cases "length seq1 = length seq2")
  case True
  have "merge_loop (merge_at seq1 seq2 qual1 qual2 c d) [0..<length seq2] []
      = merge_loop (merge_at seq2 seq1 qual2 qual1 c d) [0..<length seq2] []"
    by (rule merge_loop_cong) (simp add: merge_at_sym [OF True])
  with True show ?thesis by (simp add: merge_bases_def)
next
  case False
  then show ?thesis by (auto simp: merge_bases_def)
qed

lemma splice_loop_sym:
  "splice_loop ins1 ins2 ps mseq = splice_loop ins2 ins1 ps mseq"
proof (induction ps arbitrary: mseq)
  case Nil
  show ?case by simp
next
  case (Cons p ps)
  show ?case
    using merge_bases_sym [of "fst (ins_get ins1 (int p))" "fst (ins_get ins2 (int p))"
        "snd (ins_get ins1 (int p))" "snd (ins_get ins2 (int p))" 10 5]
    by (auto simp: Let_def Cons.IH split: sum.splits)
qed

lemma merge_pairs_swap:
  "merge_pairs seq1 seq2 qual1 qual2 ins1 ins2 q_cutoff minimum_q_delta
   = merge_pairs seq2 seq1 qual2 qual1 ins2 ins1 q_cutoff minimum_q_delta"
  unfolding merge_pairs_def
  using merge_bases_sym [of seq1 seq2 qual1 qual2 q_cutoff minimum_q_delta]
  by (auto split: sum.splits simp: splice_loop_sym)

lemma splice_loop_empty: "splice_loop [] [] ps mseq = Inr mseq"
  by (induction ps arbitrary: mseq) (auto simp: ins_get_def)

lemma merge_pairs_no_insertions:
  "merge_pairs seq1 seq2 qual1 qual2 None None q_cutoff minimum_q_delta
   = merge_bases seq1 seq2 qual1 qual2 q_cutoff minimum_q_delta"
  by (auto simp: merge_pairs_def ins_or_empty_def splice_loop_empty split: sum.splits)







text \<open>
  C4: \<open>merge_pairs\<close> gives the same result, or raises the same error, when the two
  mates are swapped together with their quality strings and insertion dictionaries, for
  sequences of any lengths and every cutoff and minimum quality delta.
\<close>

theorem merge_pairs_symmetric:
  "merge_pairs seq1 seq2 qual1 qual2 ins1 ins2 q_cutoff minimum_q_delta
   = merge_pairs seq2 seq1 qual2 qual1 ins2 ins1 q_cutoff minimum_q_delta"
  by (rule merge_pairs_swap)





section \<open>Properties of the variant aggregation\<close>

lemma map_of_dd_update:
  "map_of (dd_update k d f al) k' =
     (if k' = k then Some (f (case map_of al k of None \<Rightarrow> d | Some v \<Rightarrow> v)) else map_of al k')"
  by (induction al) auto

lemma keys_dd_update:
  "map fst (dd_update k d f al) = (if k \<in> set (map fst al) then map fst al else map fst al @ [k])"
  by (induction al) (auto simp: rev_image_eqI)

lemma distinct_dd_update:
  "distinct (map fst al) \<Longrightarrow> distinct (map fst (dd_update k d f al))"
  by (simp add: keys_dd_update)

lemma set_dd_update:
  "set (dd_update k d f al)
     \<subseteq> insert (k, f (case map_of al k of None \<Rightarrow> d | Some v \<Rightarrow> v)) (set al)"
proof (induction al)
  case Nil
  show ?case by simp
next
  case (Cons a al)
  obtain k' v where a: "a = (k', v)" by (cases a)
  show ?case
  proof (cases "k = k'")
    case True
    then show ?thesis unfolding a by auto
  next
    case False
    with Cons.IH show ?thesis unfolding a by auto
  qed
qed

lemma counter_ok_incr:
  assumes "counter_ok c"
  shows "counter_ok (dd_update mseq 0 Suc c)"
proof -
  have "0 < n" if "(s, n) \<in> set (dd_update mseq 0 Suc c)" for s n
  proof -
    from that set_dd_update [of mseq 0 Suc c]
    have "(s, n) = (mseq, Suc (case map_of c mseq of None \<Rightarrow> 0 | Some v \<Rightarrow> v)) \<or> (s, n) \<in> set c"
      by blast
    then show ?thesis
    proof
      assume "(s, n) = (mseq, Suc (case map_of c mseq of None \<Rightarrow> 0 | Some v \<Rightarrow> v))"
      then show ?thesis by simp
    next
      assume "(s, n) \<in> set c"
      with assms show ?thesis by (force simp: counter_ok_def)
    qed
  qed
  with assms show ?thesis by (auto simp: counter_ok_def distinct_dd_update)
qed

lemma count_of_incr:
  "count_of (dd_update mseq 0 Suc c) s = count_of c s + (if s = mseq then 1 else 0)"
  by (simp add: count_of_def map_of_dd_update split: option.splits)

lemma counter_ok_Nil: "counter_ok []"
  by (simp add: counter_ok_def)

lemma region_ok_counter:
  assumes "region_ok region"
  shows "counter_ok (case map_of region q of None \<Rightarrow> [] | Some c \<Rightarrow> c)"
proof (cases "map_of region q")
  case None
  then show ?thesis by (simp add: counter_ok_Nil)
next
  case (Some c)
  then have "(q, c) \<in> set region" by (rule map_of_SomeD)
  with assms have "counter_ok c" by (force simp: region_ok_def)
  with Some show ?thesis by simp
qed

lemma region_ok_incr:
  assumes "region_ok region"
  shows "region_ok (dd_update qcut [] (dd_update mseq 0 Suc) region)"
proof -
  have "counter_ok c" if "(q, c) \<in> set (dd_update qcut [] (dd_update mseq 0 Suc) region)" for q c
  proof -
    from that set_dd_update [of qcut "[]" "dd_update mseq 0 Suc" region]
    have "(q, c) = (qcut, dd_update mseq 0 Suc (case map_of region qcut of None \<Rightarrow> [] | Some v \<Rightarrow> v))
          \<or> (q, c) \<in> set region"
      by blast
    then show ?thesis
    proof
      assume "(q, c) = (qcut, dd_update mseq 0 Suc (case map_of region qcut of None \<Rightarrow> [] | Some v \<Rightarrow> v))"
      then show ?thesis using counter_ok_incr [OF region_ok_counter [OF assms]] by simp
    next
      assume "(q, c) \<in> set region"
      with assms show ?thesis by (force simp: region_ok_def)
    qed
  qed
  with assms show ?thesis by (auto simp: region_ok_def distinct_dd_update)
qed

lemma region_counter_incr:
  "region_counter (dd_update qcut [] (dd_update mseq 0 Suc) region) q =
     (if q = qcut then dd_update mseq 0 Suc (region_counter region q) else region_counter region q)"
  by (simp add: region_counter_def map_of_dd_update)

lemma fold_region:
  "region_ok region \<Longrightarrow>
   region_ok (fold (\<lambda>(qcut, mseq). dd_update qcut [] (dd_update mseq 0 Suc)) mseqs region) \<and>
   count_of (region_counter (fold (\<lambda>(qcut, mseq). dd_update qcut [] (dd_update mseq 0 Suc)) mseqs region) q) s
     = count_of (region_counter region q) s
       + count_list (map snd (filter (\<lambda>(qc, mseq). qc = q) mseqs)) s"
proof (induction mseqs arbitrary: region)
  case Nil
  then show ?case by simp
next
  case (Cons a mseqs)
  obtain qcut mseq where a: "a = (qcut, mseq)" by (cases a)
  have ok: "region_ok (dd_update qcut [] (dd_update mseq 0 Suc) region)"
    using Cons.prems by (rule region_ok_incr)
  from Cons.IH [OF ok] show ?case
    unfolding a by (auto simp: region_counter_incr count_of_incr)
qed

lemma region_ok_Nil: "region_ok []"
  by (simp add: region_ok_def)

lemma aligned_ok_region:
  assumes "aligned_ok aligned"
  shows "region_ok (case map_of aligned r of None \<Rightarrow> [] | Some region \<Rightarrow> region)"
proof (cases "map_of aligned r")
  case None
  then show ?thesis by (simp add: region_ok_Nil)
next
  case (Some region)
  then have "(r, region) \<in> set aligned" by (rule map_of_SomeD)
  with assms have "region_ok region" by (force simp: aligned_ok_def)
  with Some show ?thesis by simp
qed

lemma collect_merged_ok:
  assumes "aligned_ok aligned"
  shows "aligned_ok (collect_merged rname mseqs aligned)"
proof -
  let ?f = "\<lambda>region. fold (\<lambda>(qcut, mseq). dd_update qcut [] (dd_update mseq 0 Suc)) mseqs region"
  have "region_ok region" if "(r, region) \<in> set (dd_update rname [] ?f aligned)" for r region
  proof -
    from that set_dd_update [of rname "[]" ?f aligned]
    have "(r, region) = (rname, ?f (case map_of aligned rname of None \<Rightarrow> [] | Some v \<Rightarrow> v))
          \<or> (r, region) \<in> set aligned"
      by blast
    then show ?thesis
    proof
      assume "(r, region) = (rname, ?f (case map_of aligned rname of None \<Rightarrow> [] | Some v \<Rightarrow> v))"
      then show ?thesis using fold_region [OF aligned_ok_region [OF assms, of rname], of mseqs] by simp
    next
      assume "(r, region) \<in> set aligned"
      with assms show ?thesis by (force simp: aligned_ok_def)
    qed
  qed
  with assms show ?thesis by (auto simp: aligned_ok_def collect_merged_def distinct_dd_update)
qed

lemma collect_merged_count:
  assumes "aligned_ok aligned"
  shows "count_of (counter_of (collect_merged rname mseqs aligned) r q) s
     = count_of (counter_of aligned r q) s
       + (if r = rname then count_list (map snd (filter (\<lambda>(qc, mseq). qc = q) mseqs)) s else 0)"
  using fold_region [OF aligned_ok_region [OF assms, of rname], of mseqs q s]
  by (simp add: counter_of_def collect_merged_def map_of_dd_update)

lemma sam2aln_loop_counts:
  "sam2aln_loop (map (parse_sam cfg) iter) aligned inserts failed = Inr (aligned', inserts', failed') \<Longrightarrow>
   aligned_ok aligned \<Longrightarrow>
   aligned_ok aligned' \<and>
   count_of (counter_of aligned' r q) s
     = count_of (counter_of aligned r q) s + count_list (merged_in_group cfg iter r q) s"
proof (induction iter arbitrary: aligned inserts failed)
  case Nil
  then show ?case by (simp add: merged_in_group_def)
next
  case (Cons rows iter)
  from Cons.prems(1) obtain rname mseqs insert_list failed_list where
    p: "parse_sam cfg rows = Inr (rname, mseqs, insert_list, failed_list)"
    and rest: "sam2aln_loop (map (parse_sam cfg) iter) (collect_merged rname mseqs aligned)
          (inserts @ insert_list) (failed @ failed_list) = Inr (aligned', inserts', failed')"
    by (auto split: sum.splits)
  have ok: "aligned_ok (collect_merged rname mseqs aligned)"
    using Cons.prems(2) by (rule collect_merged_ok)
  have m: "merged_in_group cfg (rows # iter) r q
      = (if r = rname then map snd (filter (\<lambda>(qc, mseq). qc = q) mseqs) else [])
        @ merged_in_group cfg iter r q"
    by (simp add: merged_in_group_def p)
  from Cons.IH [OF rest ok] collect_merged_count [OF Cons.prems(2), of rname mseqs r q s]
  show ?case unfolding m by simp
qed

lemma aligned_ok_counter:
  assumes "aligned_ok aligned"
  shows "counter_ok (counter_of aligned r q)"
  unfolding counter_of_def region_counter_def
  by (rule region_ok_counter [OF aligned_ok_region [OF assms]])

lemma variant_rows_Nil: "variant_rows r q [] = []"
  by (simp add: variant_rows_def)

lemma variant_rows_group:
  "row \<in> set (variant_rows r q c) \<Longrightarrow> al_refname row = r \<and> al_qcut row = q"
  by (auto simp: variant_rows_def Let_def)

lemma group_rows_variant_rows:
  "group_rows r q (variant_rows r' q' c) = (if r' = r \<and> q' = q then variant_rows r' q' c else [])"
proof (cases "r' = r \<and> q' = q")
  case True
  then have "\<forall>row\<in>set (variant_rows r' q' c). al_refname row = r \<and> al_qcut row = q"
    using variant_rows_group by blast
  with True show ?thesis by (simp add: group_rows_def)
next
  case False
  then have "\<forall>row\<in>set (variant_rows r' q' c). \<not> (al_refname row = r \<and> al_qcut row = q)"
    using variant_rows_group by blast
  then have "group_rows r q (variant_rows r' q' c) = []"
    unfolding group_rows_def filter_empty_conv by blast
  with False show ?thesis by presburger
qed

lemma group_rows_append: "group_rows r q (xs @ ys) = group_rows r q xs @ group_rows r q ys"
  by (simp add: group_rows_def)

lemma group_rows_region:
  "distinct (map fst data) \<Longrightarrow>
   group_rows r q (concat (map (\<lambda>(qcut, data2). variant_rows rname qcut data2) data))
     = (if rname = r then variant_rows r q (region_counter data q) else [])"
proof (induction data)
  case Nil
  show ?case by (simp add: group_rows_def region_counter_def variant_rows_Nil)
next
  case (Cons a data)
  obtain qc c where a: "a = (qc, c)" by (cases a)
  from Cons.prems have d: "distinct (map fst data)" and notin: "qc \<notin> fst ` set data"
    unfolding a by simp_all
  show ?case
  proof (cases "rname = r \<and> qc = q")
    case True
    from notin True have "map_of data q = None" by (simp add: map_of_eq_None_iff)
    then have "region_counter data q = []" by (simp add: region_counter_def)
    with Cons.IH [OF d] True show ?thesis
      unfolding a by (simp add: group_rows_append group_rows_variant_rows region_counter_def variant_rows_Nil)
  next
    case False
    with Cons.IH [OF d] show ?thesis
      unfolding a by (auto simp: group_rows_append group_rows_variant_rows region_counter_def)
  qed
qed

lemma group_rows_write_aligned:
  "aligned_ok aligned \<Longrightarrow>
   group_rows r q (write_aligned aligned) = variant_rows r q (counter_of aligned r q)"
proof (induction aligned)
  case Nil
  show ?case
    by (simp add: write_aligned_def group_rows_def counter_of_def region_counter_def variant_rows_Nil)
next
  case (Cons a aligned)
  obtain rname data where a: "a = (rname, data)" by (cases a)
  from Cons.prems have ok: "aligned_ok aligned" and notin: "rname \<notin> fst ` set aligned"
    and dd: "distinct (map fst data)"
    unfolding a by (auto simp: aligned_ok_def region_ok_def)
  have split: "group_rows r q (write_aligned (a # aligned))
      = group_rows r q (concat (map (\<lambda>(qcut, data2). variant_rows rname qcut data2) data))
        @ group_rows r q (write_aligned aligned)"
    unfolding a by (simp add: write_aligned_def group_rows_append)
  show ?case
  proof (cases "rname = r")
    case True
    from notin True have "map_of aligned r = None" by (simp add: map_of_eq_None_iff)
    then have "counter_of aligned r q = []" by (simp add: counter_of_def region_counter_def)
    with Cons.IH [OF ok] True show ?thesis
      unfolding split group_rows_region [OF dd]
      by (simp add: a counter_of_def variant_rows_Nil)
  next
    case False
    with Cons.IH [OF ok] show ?thesis
      unfolding split group_rows_region [OF dd]
      by (simp add: a counter_of_def)
  qed
qed

lemma map_enumerate_cong:
  "(\<And>x n. x \<in> set xs \<Longrightarrow> f (n, x) = g (n, h x)) \<Longrightarrow>
   map f (enumerate n xs) = map g (enumerate n (map h xs))"
  by (induction xs arbitrary: n) auto

lemma counter_keys:
  assumes "counter_ok c" and "\<And>s. count_of c s = count_list M s"
  shows "map (\<lambda>(s, count). (count, len_gap_prefix s, s)) c = map (variant_key M) (map fst c)"
    and "set (map fst c) = set M"
proof -
  from assms(1) have d: "distinct (map fst c)" and pos: "\<And>s n. (s, n) \<in> set c \<Longrightarrow> 0 < n"
    by (auto simp: counter_ok_def)
  have val: "n = count_list M s" if "(s, n) \<in> set c" for s n
  proof -
    from d that have "map_of c s = Some n" by simp
    then have "count_of c s = n" by (simp add: count_of_def)
    with assms(2) show ?thesis by simp
  qed
  then show "map (\<lambda>(s, count). (count, len_gap_prefix s, s)) c = map (variant_key M) (map fst c)"
    by (auto simp: variant_key_def)
  show "set (map fst c) = set M"
  proof (intro set_eqI iffI)
    fix s assume "s \<in> set (map fst c)"
    then obtain n where sn: "(s, n) \<in> set c" by auto
    from pos [OF sn] val [OF sn] have "count_list M s \<noteq> 0" by simp
    then show "s \<in> set M" by (simp add: count_list_0_iff)
  next
    fix s assume "s \<in> set M"
    then have "count_list M s \<noteq> 0" by (simp add: count_list_0_iff)
    with assms(2) have "count_of c s \<noteq> 0" by simp
    then obtain n where "map_of c s = Some n" by (auto simp: count_of_def split: option.splits)
    then have "(s, n) \<in> set c" by (rule map_of_SomeD)
    then show "s \<in> set (map fst c)" by force
  qed
qed

lemma sort_cong_mset: "mset xs = mset ys \<Longrightarrow> sort xs = sort ys"
  by (metis properties_for_sort sorted_sort mset_sort)

lemma variant_rows_ranked:
  assumes "counter_ok c" and "\<And>s. count_of c s = count_list M s"
  shows "variant_rows r q c = ranked_rows r q M (variant_order M)"
proof -
  from assms(1) have d: "distinct (map fst c)" by (simp add: counter_ok_def)
  have "set (map fst c) = set (remdups M)"
    using counter_keys(2) [OF assms] by simp
  with set_eq_iff_mset_eq_distinct [OF d distinct_remdups, of M]
  have "mset (map fst c) = mset (remdups M)" by blast
  then have "mset (map (variant_key M) (map fst c)) = mset (map (variant_key M) (remdups M))"
    by (metis mset_map)
  then have s: "sort (map (variant_key M) (map fst c)) = sort (map (variant_key M) (remdups M))"
    by (rule sort_cong_mset)
  let ?I = "rev (sort (map (variant_key M) (remdups M)))"
  have I: "variant_rows r q c =
     map (\<lambda>(rank, count, offset, sq).
                \<lparr>al_refname = r, al_qcut = q, al_rank = rank, al_count = count,
                 al_offset = offset, al_seq = strip_gaps sq\<rparr>) (enumerate 0 ?I)"
    unfolding variant_rows_def Let_def counter_keys(1) [OF assms] s by (rule refl)
  have key: "k = variant_key M (snd (snd k))" if "k \<in> set ?I" for k
  proof -
    from that obtain s where "k = variant_key M s" by auto
    then show ?thesis by (simp add: variant_key_def)
  qed
  show ?thesis unfolding I ranked_rows_def variant_order_def
  proof (rule map_enumerate_cong [where h = "\<lambda>k. snd (snd k)"])
    fix x :: "nat \<times> nat \<times> string" and n :: nat
    assume "x \<in> set ?I"
    from key [OF this] obtain s where x: "x = (count_list M s, len_gap_prefix s, s)"
      by (simp add: variant_key_def)
    show "(case (n, x) of (rank, cnt, offset, sq) \<Rightarrow>
                \<lparr>al_refname = r, al_qcut = q, al_rank = rank, al_count = cnt,
                 al_offset = offset, al_seq = strip_gaps sq\<rparr>)
        = (case (n, snd (snd x)) of (rank, s) \<Rightarrow>
            \<lparr>al_refname = r, al_qcut = q, al_rank = rank,
             al_count = count_list M s, al_offset = len_gap_prefix s,
             al_seq = strip_gaps s\<rparr>)"
      unfolding x by simp
  qed
qed
lemma sam2aln_group:
  assumes "sam2aln cfg remap_csv nthreads = Inr out"
  shows "group_rows r q (aligned_csv out)
     = ranked_rows r q (merged_in_group cfg (matchmaker remap_csv) r q)
         (variant_order (merged_in_group cfg (matchmaker remap_csv) r q))"
proof -
  let ?M = "merged_in_group cfg (matchmaker remap_csv) r q"
  from sam2aln_returns [OF assms] obtain aligned inserts failed where
    loop: "sam2aln_loop (map (parse_sam cfg) (matchmaker remap_csv)) [] [] []
        = Inr (aligned, inserts, failed)"
    and out: "aligned_csv out = write_aligned aligned"
    by auto
  have ok0: "aligned_ok []" by (simp add: aligned_ok_def)
  have ok: "aligned_ok aligned"
    using sam2aln_loop_counts [OF loop ok0] by simp
  have cnt: "count_of (counter_of aligned r q) s = count_list ?M s" for s
    using sam2aln_loop_counts [OF loop ok0, of r q s]
    by (simp add: counter_of_def region_counter_def count_of_def)
  have "variant_rows r q (counter_of aligned r q) = ranked_rows r q ?M (variant_order ?M)"
    using aligned_ok_counter [OF ok] cnt by (rule variant_rows_ranked)
  then show ?thesis by (simp add: out group_rows_write_aligned [OF ok])
qed

lemma mset_variant_order: "mset (variant_order M) = mset (remdups M)"
proof -
  have "mset (variant_order M) = image_mset (\<lambda>k. snd (snd k)) (image_mset (variant_key M) (mset (remdups M)))"
    by (simp add: variant_order_def)
  also have "\<dots> = image_mset (\<lambda>s. s) (mset (remdups M))"
    unfolding image_mset.compositionality by (simp add: comp_def variant_key_def)
  finally show ?thesis by simp
qed

lemma variant_order_distinct: "distinct (variant_order M)"
  by (metis mset_variant_order distinct_remdups mset_eq_imp_distinct_iff)

lemma variant_order_set: "set (variant_order M) = set M"
  by (metis mset_variant_order set_remdups mset_eq_setD)

lemma variant_key_inj: "variant_key M s = variant_key M t \<Longrightarrow> s = t"
  by (simp add: variant_key_def)

lemma variant_order_sorted:
  "sorted_wrt (\<lambda>s t. variant_key M t < variant_key M s) (variant_order M)"
proof -
  let ?ks = "map (variant_key M) (remdups M)"
  have d: "distinct ?ks"
    by (simp add: distinct_map inj_on_def variant_key_def)
  have "sorted_wrt (<) (sort ?ks)"
    using d by (simp add: strict_sorted_iff)
  then have "sorted_wrt (\<lambda>a b. b < a) (rev (sort ?ks))"
    by (simp add: sorted_wrt_rev)
  moreover have "k = variant_key M (snd (snd k))" if "k \<in> set (rev (sort ?ks))" for k
  proof -
    from that obtain s where "k = variant_key M s" by auto
    then show ?thesis by (simp add: variant_key_def)
  qed
  ultimately have "sorted_wrt (\<lambda>a b. variant_key M (snd (snd b)) < variant_key M (snd (snd a))) (rev (sort ?ks))"
  proof -
    assume srt: "sorted_wrt (\<lambda>a b. b < a) (rev (sort ?ks))"
      and key: "\<And>k. k \<in> set (rev (sort ?ks)) \<Longrightarrow> k = variant_key M (snd (snd k))"
    show ?thesis
    proof (rule sorted_wrt_mono_rel [OF _ srt])
      fix a b :: "nat \<times> nat \<times> string"
      assume "a \<in> set (rev (sort ?ks))" "b \<in> set (rev (sort ?ks))" "b < a"
      with key [of a] key [of b]
      show "variant_key M (snd (snd b)) < variant_key M (snd (snd a))" by simp
    qed
  qed
  then show ?thesis by (simp add: variant_order_def sorted_wrt_map)
qed

lemma variant_order_mset_cong:
  assumes "mset M' = mset M"
  shows "variant_order M' = variant_order M"
proof -
  have c: "count_list M' s = count_list M s" for s
    using assms by (metis count_mset)
  then have k: "variant_key M' = variant_key M" by (simp add: variant_key_def fun_eq_iff)
  have "set M' = set M" using assms by (rule mset_eq_setD)
  then have "set (remdups M') = set (remdups M)" by simp
  with set_eq_iff_mset_eq_distinct [OF distinct_remdups distinct_remdups, of M' M]
  have "mset (remdups M') = mset (remdups M)" by blast
  then have "mset (map (variant_key M) (remdups M')) = mset (map (variant_key M) (remdups M))"
    by (metis mset_map)
  then have "sort (map (variant_key M) (remdups M')) = sort (map (variant_key M) (remdups M))"
    by (rule sort_cong_mset)
  then show ?thesis by (simp add: variant_order_def k)
qed

lemma ranked_rows_mset_cong:
  assumes "mset M' = mset M"
  shows "ranked_rows r q M' ks = ranked_rows r q M ks"
proof -
  have "count_list M' s = count_list M s" for s
    using assms by (metis count_mset)
  then show ?thesis by (simp add: ranked_rows_def)
qed

lemma length_ranked_rows: "length (ranked_rows r q M ks) = length ks"
  by (simp add: ranked_rows_def)

lemma nth_ranked_rows:
  "i < length ks \<Longrightarrow> ranked_rows r q M ks ! i =
     \<lparr>al_refname = r, al_qcut = q, al_rank = i, al_count = count_list M (ks ! i),
      al_offset = len_gap_prefix (ks ! i), al_seq = strip_gaps (ks ! i)\<rparr>"
  by (simp add: ranked_rows_def nth_enumerate_eq)

section \<open>Properties of sam2aln\<close>

text \<open>
  C2 (as stated): a malformed CIGAR is fatal for its own record only, and \<open>sam2aln\<close>
  still emits the variant, insertion and failure rows of every other record. In the
  source nothing catches the \<^verbatim>\<open>RuntimeError\<close> of \<open>apply_cigar\<close>: on a stream whose second
  fragment has the CIGAR \<open>4M4\<close> the run ends with that error. No variant row is written
  for the first fragment and the third fragment gives no row at all; the insertion
  rows of the first fragment are written by the sequential run and lost by the pool.
\<close>

theorem sam2aln_malformed_cigar_counterexample:
  "sam2aln example_settings example_bad_stream None
   = Inl (RuntimeError Invalid_CIGAR_string,
          \<lparr>insert_csv =
             [\<lparr>ins_qname = ''a'', ins_fwd_rev = CHR ''F'', ins_refname = ''R1'', ins_pos = 2,
               ins_insert = ''G'', ins_qual = ''I''\<rparr>,
              \<lparr>ins_qname = ''a'', ins_fwd_rev = CHR ''R'', ins_refname = ''R1'', ins_pos = 2,
               ins_insert = ''G'', ins_qual = ''I''\<rparr>],
           failed_csv = [], aligned_csv = []\<rparr>)
   \<and> sam2aln example_settings example_bad_stream (Some 2)
   = Inl (RuntimeError Invalid_CIGAR_string,
          \<lparr>insert_csv = [], failed_csv = [], aligned_csv = []\<rparr>)"
  by code_simp

text \<open>
  C2 (amended): if a mate of a pair that \<open>parse_sam\<close> accepts has a CIGAR on which
  \<open>apply_cigar\<close> fails, and \<open>parse_sam\<close> returns for every pair before it, \<open>sam2aln\<close>
  ends with a \<^verbatim>\<open>RuntimeError\<close> at that pair, with or without a pool. No variant row is
  written at all and nothing is emitted for the pairs after it. The insertion and
  failure rows written are those of the pairs before it in the sequential run; with a
  pool they are those of the pairs in the batches of 100 before the batch of the
  failing pair, the rows of the earlier pairs of its own batch being lost.
\<close>

theorem sam2aln_decoding_failure_aborts:
  assumes "matchmaker remap_csv = before @ (row1, Some row2) # rest"
    and "\<forall>rows\<in>set before. \<exists>r. parse_sam cfg rows = Inr r"
    and "accepted cfg row1 row2"
    and "bad = row1 \<or> bad = row2"
    and "apply_cigar (row_cigar bad) (row_seq bad) (row_qual bad) 0 0 None = Inl e"
  shows "\<exists>f. sam2aln cfg remap_csv nthreads
     = Inl (RuntimeError f,
            \<lparr>insert_csv = inserts_of cfg (delivered_before nthreads before),
             failed_csv = failures_of cfg (delivered_before nthreads before),
             aligned_csv = []\<rparr>)"
proof -
  from parse_sam_decoding_failure [OF assms(3,4,5)] obtain f where
    "parse_sam cfg (row1, Some row2) = Inl (RuntimeError f)" ..
  from sam2aln_abort [OF assms(1) this assms(2)] show ?thesis ..
qed

theorem sam2aln_decoding_failure_aborts_witness:
  "(\<exists>f. sam2aln example_settings example_bad_stream None
     = Inl (RuntimeError f,
            \<lparr>insert_csv = inserts_of example_settings
                 (delivered_before None
                   [(example_row ''a'' 99 1 ''2M1I1M'' ''ACGT'' ''IIII'',
                     Some (example_row ''a'' 147 1 ''2M1I1M'' ''ACGT'' ''IIII''))]),
             failed_csv = failures_of example_settings
                 (delivered_before None
                   [(example_row ''a'' 99 1 ''2M1I1M'' ''ACGT'' ''IIII'',
                     Some (example_row ''a'' 147 1 ''2M1I1M'' ''ACGT'' ''IIII''))]),
             aligned_csv = []\<rparr>))
   \<and> (\<exists>f. sam2aln example_settings example_bad_stream (Some 2)
     = Inl (RuntimeError f,
            \<lparr>insert_csv = inserts_of example_settings
                 (delivered_before (Some 2)
                   [(example_row ''a'' 99 1 ''2M1I1M'' ''ACGT'' ''IIII'',
                     Some (example_row ''a'' 147 1 ''2M1I1M'' ''ACGT'' ''IIII''))]),
             failed_csv = failures_of example_settings
                 (delivered_before (Some 2)
                   [(example_row ''a'' 99 1 ''2M1I1M'' ''ACGT'' ''IIII'',
                     Some (example_row ''a'' 147 1 ''2M1I1M'' ''ACGT'' ''IIII''))]),
             aligned_csv = []\<rparr>))"
proof -
  let ?a = "(example_row ''a'' 99 1 ''2M1I1M'' ''ACGT'' ''IIII'',
             Some (example_row ''a'' 147 1 ''2M1I1M'' ''ACGT'' ''IIII''))"
  let ?b1 = "example_row ''b'' 99 1 ''4M4'' ''ACGT'' ''IIII''"
  let ?b2 = "example_row ''b'' 147 1 ''4M4'' ''ACGT'' ''IIII''"
  let ?c = "(example_row ''c'' 99 1 ''4M'' ''ACGT'' ''IIII'',
             Some (example_row ''c'' 147 1 ''4M'' ''ACGT'' ''IIII''))"
  have m: "matchmaker example_bad_stream = [?a] @ (?b1, Some ?b2) # [?c]"
    by code_simp
  have pa: "parse_sam example_settings ?a
      = Inr (''R1'', [(15, ''ACT'')],
          [\<lparr>ins_qname = ''a'', ins_fwd_rev = CHR ''F'', ins_refname = ''R1'', ins_pos = 2,
               ins_insert = ''G'', ins_qual = ''I''\<rparr>,
              \<lparr>ins_qname = ''a'', ins_fwd_rev = CHR ''R'', ins_refname = ''R1'', ins_pos = 2,
               ins_insert = ''G'', ins_qual = ''I''\<rparr>], [])"
    by code_simp
  have before: "\<forall>rows\<in>set [?a]. \<exists>r. parse_sam example_settings rows = Inr r"
    using pa by simp
  have acc: "accepted example_settings ?b1 ?b2" by code_simp
  have bad: "?b1 = ?b1 \<or> ?b1 = ?b2" by simp
  have err: "apply_cigar (row_cigar ?b1) (row_seq ?b1) (row_qual ?b1) 0 0 None
      = Inl (RuntimeError Invalid_CIGAR_string)"
    by code_simp
  show ?thesis
    by (rule conjI [OF sam2aln_decoding_failure_aborts [OF m before acc bad err]
          sam2aln_decoding_failure_aborts [OF m before acc bad err]])
qed

lemma example_stream_result: "sam2aln example_settings example_stream None = Inr example_out"
  by code_simp

lemma example_stream_pool_result: "sam2aln example_settings example_stream (Some 4) = Inr example_out"
  by code_simp

lemma example_stream_merged:
  "merged_in_group example_settings (matchmaker example_stream) ''R1'' 15 = [''ACGT'', ''-ACGT'', ''ACGT'']"
  by code_simp

text \<open>
  C1 (as stated): two merged sequences that are identical after stripping flanking gaps
  are counted as one variant, in a single row. The counter of the source is keyed by the
  merged sequence as it is, gaps included; the gaps are stripped only when a row is
  written. Two fragments that merge to \<open>ACGT\<close> and to \<open>-ACGT\<close> give two rows of
  count 1, with offsets 0 and 1.
\<close>

theorem sam2aln_flanking_gaps_counterexample:
  "sam2aln example_settings
     (example_pair ''a'' 1 ''4M'' ''ACGT'' ''IIII'' @ example_pair ''b'' 2 ''4M'' ''ACGT'' ''IIII'') None
   = Inr \<lparr>insert_csv = [], failed_csv = [],
          aligned_csv =
            [\<lparr>al_refname = ''R1'', al_qcut = 15, al_rank = 0, al_count = 1, al_offset = 1,
              al_seq = ''ACGT''\<rparr>,
             \<lparr>al_refname = ''R1'', al_qcut = 15, al_rank = 1, al_count = 1, al_offset = 0,
              al_seq = ''ACGT''\<rparr>]\<rparr>
   \<and> merged_in_group example_settings
       (matchmaker
         (example_pair ''a'' 1 ''4M'' ''ACGT'' ''IIII'' @ example_pair ''b'' 2 ''4M'' ''ACGT'' ''IIII''))
       ''R1'' 15 = [''ACGT'', ''-ACGT'']
   \<and> strip_gaps ''ACGT'' = strip_gaps ''-ACGT''"
  by code_simp

text \<open>
  C1 (amended): for every run of \<open>sam2aln\<close> that returns, with or without a pool, and
  every (reference, cutoff) group, merged sequences that are identical
  as merged, flanking gaps included, are counted as one variant: the rows of the group
  are one row for each distinct merged sequence, whose count is the number of merges
  equal to that sequence, whose offset is the length of its leading gap run and whose
  sequence is the merged sequence stripped of flanking gaps.
\<close>

theorem sam2aln_counts_identical_merges:
  assumes "sam2aln cfg remap_csv nthreads = Inr out"
  shows "\<exists>ks. distinct ks
      \<and> set ks = set (merged_in_group cfg (matchmaker remap_csv) rname qcut)
      \<and> group_rows rname qcut (aligned_csv out)
          = ranked_rows rname qcut (merged_in_group cfg (matchmaker remap_csv) rname qcut) ks"
proof (intro exI conjI)
  let ?M = "merged_in_group cfg (matchmaker remap_csv) rname qcut"
  show "distinct (variant_order ?M)" by (rule variant_order_distinct)
  show "set (variant_order ?M) = set ?M" by (rule variant_order_set)
  show "group_rows rname qcut (aligned_csv out) = ranked_rows rname qcut ?M (variant_order ?M)"
    using assms by (rule sam2aln_group)
qed

theorem sam2aln_counts_identical_merges_witness:
  "sam2aln example_settings example_stream None = Inr example_out
   \<and> (\<exists>ks. distinct ks
      \<and> set ks = set (merged_in_group example_settings (matchmaker example_stream) ''R1'' 15)
      \<and> group_rows ''R1'' 15 (aligned_csv example_out)
          = ranked_rows ''R1'' 15
              (merged_in_group example_settings (matchmaker example_stream) ''R1'' 15) ks)"
  by (rule conjI [OF example_stream_result
        sam2aln_counts_identical_merges [OF example_stream_result, of "''R1''" 15]])

lemma variant_key_less:
  "variant_key M t < variant_key M s \<longleftrightarrow>
     count_list M t < count_list M s
     \<or> (count_list M t = count_list M s
        \<and> (len_gap_prefix t < len_gap_prefix s \<or> (len_gap_prefix t = len_gap_prefix s \<and> t < s)))"
  unfolding variant_key_def less_prod_def fst_conv snd_conv by auto

text \<open>
  C7: for every run of \<open>sam2aln\<close> that returns, with or without a pool, within each
  (reference, cutoff) group the rows are those of the distinct merged
  sequences ordered by count descending, then by length of the leading gap run
  descending, then by merged sequence descending. The order is strict, it depends only
  on which sequences were merged how often and not on the order in which they were
  accumulated, and the rank of a row is its 0-based position.
\<close>

theorem sam2aln_rank_order:
  assumes "sam2aln cfg remap_csv nthreads = Inr out"
  shows "let merged = merged_in_group cfg (matchmaker remap_csv) rname qcut;
             rows = group_rows rname qcut (aligned_csv out)
         in rows = ranked_rows rname qcut merged (variant_order merged)
          \<and> sorted_wrt (\<lambda>s t.
                count_list merged t < count_list merged s
                \<or> (count_list merged t = count_list merged s
                   \<and> (len_gap_prefix t < len_gap_prefix s
                      \<or> (len_gap_prefix t = len_gap_prefix s \<and> t < s))))
              (variant_order merged)
          \<and> (\<forall>merged'. mset merged' = mset merged \<longrightarrow>
                ranked_rows rname qcut merged' (variant_order merged') = rows)
          \<and> (\<forall>i<length rows. al_rank (rows ! i) = i)"
proof -
  let ?M = "merged_in_group cfg (matchmaker remap_csv) rname qcut"
  let ?rows = "group_rows rname qcut (aligned_csv out)"
  have rows: "?rows = ranked_rows rname qcut ?M (variant_order ?M)"
    using assms by (rule sam2aln_group)
  have srt: "sorted_wrt (\<lambda>s t.
                count_list ?M t < count_list ?M s
                \<or> (count_list ?M t = count_list ?M s
                   \<and> (len_gap_prefix t < len_gap_prefix s
                      \<or> (len_gap_prefix t = len_gap_prefix s \<and> t < s))))
              (variant_order ?M)"
    using variant_order_sorted [of ?M] unfolding variant_key_less .
  have det: "ranked_rows rname qcut M' (variant_order M') = ?rows" if "mset M' = mset ?M" for M'
    unfolding rows variant_order_mset_cong [OF that] by (rule ranked_rows_mset_cong [OF that])
  have rank: "al_rank (?rows ! i) = i" if "i < length ?rows" for i
  proof -
    from that have "i < length (variant_order ?M)" unfolding rows length_ranked_rows .
    then show ?thesis unfolding rows by (simp add: nth_ranked_rows)
  qed
  show ?thesis unfolding Let_def
  proof (intro conjI allI impI)
    show "?rows = ranked_rows rname qcut ?M (variant_order ?M)" by (rule rows)
    show "sorted_wrt (\<lambda>s t.
                count_list ?M t < count_list ?M s
                \<or> (count_list ?M t = count_list ?M s
                   \<and> (len_gap_prefix t < len_gap_prefix s
                      \<or> (len_gap_prefix t = len_gap_prefix s \<and> t < s))))
              (variant_order ?M)" by (rule srt)
    show "ranked_rows rname qcut M' (variant_order M') = ?rows" if "mset M' = mset ?M" for M'
      using that by (rule det)
    show "al_rank (?rows ! i) = i" if "i < length ?rows" for i
      using that by (rule rank)
  qed
qed

theorem sam2aln_rank_order_witness:
  "sam2aln example_settings example_stream (Some 4) = Inr example_out
   \<and> group_rows ''R1'' 15 (aligned_csv example_out)
       = ranked_rows ''R1'' 15 [''ACGT'', ''-ACGT'', ''ACGT''] (variant_order [''ACGT'', ''-ACGT'', ''ACGT''])
   \<and> ranked_rows ''R1'' 15 [''-ACGT'', ''ACGT'', ''ACGT''] (variant_order [''-ACGT'', ''ACGT'', ''ACGT''])
       = group_rows ''R1'' 15 (aligned_csv example_out)
   \<and> al_rank (group_rows ''R1'' 15 (aligned_csv example_out) ! 1) = 1"
proof -
  note th = sam2aln_rank_order [OF example_stream_pool_result, of "''R1''" 15,
      unfolded Let_def example_stream_merged]
  have m: "mset [''-ACGT'', ''ACGT'', ''ACGT''] = mset [''ACGT'', ''-ACGT'', ''ACGT'']"
    by simp
  have l: "1 < length (group_rows ''R1'' 15 (aligned_csv example_out))"
    by (simp add: group_rows_def example_out_def)
  note a = th [THEN conjunct1]
  note d = th [THEN conjunct2, THEN conjunct2, THEN conjunct1, rule_format, OF m]
  note r = th [THEN conjunct2, THEN conjunct2, THEN conjunct2, rule_format, OF l]
  show ?thesis by (intro conjI example_stream_pool_result a d r)
qed


lemma map_of_dict_set:
  "map_of (dict_set k v al) k' = (if k' = k then Some v else map_of al k')"
  by (induction al) auto

text \<open>The cutoff loop, when it returns: every cutoff has a merge that is not empty
  once stripped; the merges whose proportion of \<open>N\<close> exceeds the threshold are the
  failure rows, in order, and each other merge is the entry of its cutoff.\<close>

lemma merge_cutoffs_outcome:
  "merge_cutoffs cfg qname seq1 qual1 seq2 qual2 qcuts mseqs failed_list = Inr (mseqs', failed_list') \<Longrightarrow>
   (\<forall>qcut\<in>set qcuts. \<exists>mseq. merge_pairs seq1 seq2 qual1 qual2 None None qcut 5 = Inr mseq
        \<and> strip_gaps mseq \<noteq> []) \<and>
   failed_list' = failed_list @
     concat (map (\<lambda>qcut. case merge_pairs seq1 seq2 qual1 qual2 None None qcut 5 of
                    Inl e \<Rightarrow> []
                  | Inr mseq \<Rightarrow>
                      if prop_N_of mseq > max_prop_N cfg
                      then [Failed_merge qname qcut seq1 qual1 seq2 qual2 (prop_N_of mseq) mseq]
                      else []) qcuts) \<and>
   (\<forall>qcut. map_of mseqs' qcut =
      (case merge_pairs seq1 seq2 qual1 qual2 None None qcut 5 of
         Inl e \<Rightarrow> map_of mseqs qcut
       | Inr mseq \<Rightarrow>
           if qcut \<in> set qcuts \<and> \<not> prop_N_of mseq > max_prop_N cfg then Some mseq
           else map_of mseqs qcut))"
proof (induction qcuts arbitrary: mseqs failed_list)
  case Nil
  then show ?case by (auto split: sum.splits)
next
  case (Cons q qcuts)
  from Cons.prems obtain mseq where m: "merge_pairs seq1 seq2 qual1 qual2 None None q 5 = Inr mseq"
    and ne: "strip_gaps mseq \<noteq> []"
    by (auto split: sum.splits if_splits)
  show ?case
  proof (cases "prop_N_of mseq > max_prop_N cfg")
    case True
    with Cons.prems m ne have rest: "merge_cutoffs cfg qname seq1 qual1 seq2 qual2 qcuts mseqs
        (failed_list @ [Failed_merge qname q seq1 qual1 seq2 qual2 (prop_N_of mseq) mseq])
        = Inr (mseqs', failed_list')"
      by (simp add: prop_N_of_def Let_def)
    from Cons.IH [OF rest] m ne True show ?thesis
      by (auto split: sum.splits)
  next
    case False
    with Cons.prems m ne have rest: "merge_cutoffs cfg qname seq1 qual1 seq2 qual2 qcuts
        (dict_set q mseq mseqs) failed_list = Inr (mseqs', failed_list')"
      by (simp add: prop_N_of_def Let_def)
    from Cons.IH [OF rest] m ne False show ?thesis
      by (auto simp: map_of_dict_set split: sum.splits)
  qed
qed

text \<open>
  C8: for every accepted pair and every cutoff the merge is either rejected to the
  failure report or kept as a variant. The source divides by the length of the merged
  sequence without its flanking gaps: for an accepted pair whose reads are soft-clipped
  over their whole length the merged sequence is empty and \<open>parse_sam\<close> raises
  \<^verbatim>\<open>ZeroDivisionError\<close>, with neither a failure row nor a variant.
\<close>

theorem parse_sam_empty_merge:
  "accepted example_settings (example_row ''a'' 99 1 ''3S'' ''ACG'' ''III'')
     (example_row ''a'' 147 1 ''3S'' ''ACG'' ''III'')
   \<and> parse_sam example_settings
      (example_row ''a'' 99 1 ''3S'' ''ACG'' ''III'',
       Some (example_row ''a'' 147 1 ''3S'' ''ACG'' ''III'')) = Inl ZeroDivisionError"
  by code_simp

end
